theory Spec2Isabelle
  imports Main
begin

section \<open>The updater of \<open>createUpdater\<close>: data\<close>

text \<open>
  JavaScript values, as far as the updater looks at them: snapshots are compared with
  \<open>!==\<close> (identity for objects, value for numbers), the error drain of
  \<open>completeUpdate\<close> tests a popped value for truthiness, and any value can be thrown.
  \<open>TypeError\<close> is the engine's error object for a property read of \<open>null\<close>,
  \<open>UnfinishedUpdate\<close> the \<open>Error\<close> object thrown by \<open>startUpdate\<close>.
\<close>

datatype jsval = JUndefined | JNull | JNum int | JObj nat | TypeError | UnfinishedUpdate

fun truthy :: "jsval \<Rightarrow> bool" where
  "truthy JUndefined = False"
| "truthy JNull = False"
| "truthy (JNum n) = (n \<noteq> 0)"
| "truthy (JObj a) = True"
| "truthy TypeError = True"
| "truthy UnfinishedUpdate = True"

text \<open>
  A node object \<open>{index, updater, queue, state, nextNode}\<close>. Nodes live in a heap addressed
  by their \<open>index\<close> (\<open>nodeCount++\<close>, never reused); \<open>updater\<close> is the address of the mutable
  cell \<open>{current: fn | null}\<close> handed to \<open>create\<close>; \<open>queue\<close> always points at the one queue
  of the updater and is left out.
\<close>

record node =
  updater :: nat
  state :: jsval
  nextNode :: "nat option"

text \<open>
  A subscriber callback is code outside the updater. It is modelled by what it does to the
  updater: the calls it makes on the exported entry points, the clearing of an updater cell
  (unmount), and a \<open>throw\<close>. The callback is called without arguments
  (\<open>node.updater.current()\<close>).
\<close>

datatype action =
    CallUpdating nat
  | CallNewState jsval
  | CallCreate nat
  | ClearCurrent nat
  | Throw jsval

text \<open>
  What the updater hands to the host: \<open>continueUpdate\<close>, \<open>startUpdate\<close>, or the closure
  \<open>() => { throw e }\<close> of \<open>completeUpdate\<close>. The closure holds the variable \<open>e\<close> of
  the call of \<open>completeUpdate\<close> that made it, not the value \<open>e\<close> had then; \<open>Rethrow k\<close>
  is a closure of the \<open>k\<close>-th call.
\<close>

datatype task = ContinueUpdate | StartUpdate | Rethrow nat

text \<open>
  The closure state of \<open>createUpdater\<close>, the two host queues (\<open>microtasks\<close> for
  \<open>Promise.resolve().then\<close>, \<open>tasks\<close> for \<open>setTimeout(fn, 0)\<close>), the variables \<open>e\<close>
  of the calls of \<open>completeUpdate\<close> so far (\<open>evars\<close>, \<open>evarCt\<close> of them), and \<open>calls\<close>,
  a log of the callback invocations: the node invoked and \<open>queue.state\<close> at that moment.
\<close>

record sched =
  heap :: "nat \<Rightarrow> node"
  refs :: "nat \<Rightarrow> action list option"
  queue_state :: jsval
  lastNode :: "nat option"
  cursorNode :: "nat option"
  states :: "jsval list"
  stateCt :: nat
  updates :: nat
  stateOnUpdate :: nat
  isWorking :: bool
  workNode :: "nat option"
  caughtErrors :: "jsval list"
  nodeCount :: nat
  microtasks :: "task list"
  tasks :: "task list"
  evars :: "nat \<Rightarrow> jsval"
  evarCt :: nat
  calls :: "(nat \<times> jsval) list"

datatype res = Done sched | Raise jsval sched | Diverge

definition initial :: sched where
  "initial = \<lparr> heap = (\<lambda>_. \<lparr> updater = 0, state = JNull, nextNode = None \<rparr>),
     refs = (\<lambda>_. None), queue_state = JNull, lastNode = None, cursorNode = None,
     states = [], stateCt = 0, updates = 0, stateOnUpdate = 0, isWorking = False,
     workNode = None, caughtErrors = [], nodeCount = 0, microtasks = [], tasks = [],
     evars = (\<lambda>_. JUndefined), evarCt = 0, calls = [] \<rparr>"

section \<open>The circular queue\<close>

definition set_next :: "nat \<Rightarrow> nat option \<Rightarrow> (nat \<Rightarrow> node) \<Rightarrow> (nat \<Rightarrow> node)" where
  "set_next a v h = h(a := (h a)\<lparr> nextNode := v \<rparr>)"

definition appendNodeToQueue :: "nat \<Rightarrow> sched \<Rightarrow> sched" where
  "appendNodeToQueue n s =
     (case lastNode s of
        None \<Rightarrow> s\<lparr> lastNode := Some n, heap := set_next n (Some n) (heap s),
                  cursorNode := Some n \<rparr>
      | Some l \<Rightarrow>
          (let h1 = set_next n (nextNode (heap s l)) (heap s);
               h2 = set_next l (Some n) h1
           in s\<lparr> heap := h2,
                 cursorNode := (if cursorNode s = Some l then Some n else cursorNode s),
                 lastNode := Some n \<rparr>))"

definition removeCurrentNode :: "sched \<Rightarrow> res" where
  "removeCurrentNode s =
     (case lastNode s of
        None \<Rightarrow> Done s
      | Some l \<Rightarrow>
          if nextNode (heap s l) = Some l
          then Done (s\<lparr> heap := set_next l None (heap s), lastNode := None,
                        cursorNode := None \<rparr>)
          else (case cursorNode s of
                  None \<Rightarrow> Raise TypeError s
                | Some c \<Rightarrow>
                    (case nextNode (heap s c) of
                       None \<Rightarrow> Raise TypeError s
                     | Some r \<Rightarrow>
                         (let s1 = (if r = l then s\<lparr> lastNode := Some c \<rparr> else s)
                          in Done (s1\<lparr> heap :=
                                      set_next c (nextNode (heap s1 r)) (heap s1) \<rparr>)))))"

definition create :: "nat \<Rightarrow> sched \<Rightarrow> nat \<times> sched" where
  "create u s =
     (let n = nodeCount s;
          s1 = s\<lparr> nodeCount := n + 1,
                  heap := (heap s)(n := \<lparr> updater = u, state = queue_state s,
                                          nextNode = None \<rparr>) \<rparr>
      in (n, appendNodeToQueue n s1))"

section \<open>The scheduler\<close>

text \<open>
  \<open>completeUpdate\<close> declares \<open>let e\<close> once, before its loop.
  \<open>while ((e = caughtErrors.pop()))\<close> assigns each popped value to that variable,
  schedules one closure per truthy value and stops at the first falsy one: that is
  \<open>undefined\<close> when the array is empty, or a falsy value that was thrown.
  \<open>checkForNextUpdate\<close> then schedules \<open>startUpdate\<close> as a task. \<open>runTask\<close> is the host
  running a task: a closure of \<open>completeUpdate\<close> throws what its variable holds by then.
\<close>

function drainErrors :: "nat \<Rightarrow> sched \<Rightarrow> sched" where
  "drainErrors k s =
     (if caughtErrors s = [] then s\<lparr> evars := (evars s)(k := JUndefined) \<rparr>
      else (let e = last (caughtErrors s);
                s1 = s\<lparr> caughtErrors := butlast (caughtErrors s),
                        evars := (evars s)(k := e) \<rparr>
            in if truthy e
               then drainErrors k (s1\<lparr> tasks := tasks s1 @ [Rethrow k] \<rparr>)
               else s1))"
  by pat_completeness auto
termination
  by (relation "measure (\<lambda>(k, s). length (caughtErrors s))") auto

declare drainErrors.simps [simp del]

definition checkForNextUpdate :: "sched \<Rightarrow> sched" where
  "checkForNextUpdate s =
     (if isWorking s then s else s\<lparr> tasks := tasks s @ [StartUpdate] \<rparr>)"

definition completeUpdate :: "sched \<Rightarrow> sched" where
  "completeUpdate s =
     (let k = evarCt s;
          s1 = s\<lparr> evarCt := k + 1, evars := (evars s)(k := JUndefined) \<rparr>
      in checkForNextUpdate (drainErrors k s1))"

text \<open>
  Each loop of \<open>doUpdateWork\<close> takes fuel, a bound on the number of iterations still
  allowed; \<open>Diverge\<close> is the result of running out of it, not a result of the program.

  \<open>skipDead\<close> is the inner loop \<open>while (node.updater.current === null)\<close> together with
  the read \<open>node = queue.cursorNode.nextNode\<close> before it: it removes dead nodes until the
  node after the cursor is live (\<open>Found\<close>) or the ring is empty (\<open>Emptied\<close>, the
  \<open>break workLoop\<close>). Reading a property of \<open>null\<close> throws.
\<close>

datatype skipped = Found nat sched | Emptied sched | SkipRaise jsval sched | SkipDiverge

fun skipDead :: "nat \<Rightarrow> sched \<Rightarrow> skipped" where
  "skipDead 0 s = SkipDiverge"
| "skipDead (Suc f) s =
     (case cursorNode s of
        None \<Rightarrow> SkipRaise TypeError s
      | Some c \<Rightarrow>
          (case nextNode (heap s c) of
             None \<Rightarrow> SkipRaise TypeError s
           | Some n \<Rightarrow>
               if refs s (updater (heap s n)) = None
               then (case removeCurrentNode s of
                       Diverge \<Rightarrow> SkipDiverge
                     | Raise e s1 \<Rightarrow> SkipRaise e s1
                     | Done s1 \<Rightarrow>
                         if lastNode s1 = None then Emptied s1 else skipDead f s1)
               else Found n s))"

text \<open>
  \<open>caught\<close> is the \<open>try ... catch (e) { caughtErrors.push(e) }\<close> around the callback.
  \<open>workLoop\<close> is one run of the \<open>do ... while (queue.cursorNode !== queue.lastNode)\<close>
  loop up to the \<open>completeUpdate()\<close> after it or the \<open>return\<close> that suspends the pass.
  \<open>unstable_batchedUpdates(doUpdateWork)\<close> calls \<open>doUpdateWork\<close> at once, and the
  \<open>performance\<close> marks do nothing. A callback can call back into \<open>newState\<close>, which can
  start a pass inside the running one, so the five functions are defined together;
  \<open>runCallback\<close> runs a callback's actions until one of them throws. \<open>setStore\<close> and
  \<open>dispatch\<close> only talk to the store and are left out.
\<close>

definition caught :: "res \<Rightarrow> res" where
  "caught r = (case r of Raise e s \<Rightarrow> Done (s\<lparr> caughtErrors := caughtErrors s @ [e] \<rparr>)
               | _ \<Rightarrow> r)"

fun workLoop :: "nat \<Rightarrow> sched \<Rightarrow> res"
  and doUpdateWork :: "nat \<Rightarrow> sched \<Rightarrow> res"
  and startUpdate :: "nat \<Rightarrow> sched \<Rightarrow> res"
  and newState :: "nat \<Rightarrow> jsval \<Rightarrow> sched \<Rightarrow> res"
  and runCallback :: "nat \<Rightarrow> action list \<Rightarrow> sched \<Rightarrow> res"
where
  "workLoop 0 s = Diverge"
| "workLoop (Suc f) s =
     (case skipDead (Suc f) s of
        SkipDiverge \<Rightarrow> Diverge
      | SkipRaise e s1 \<Rightarrow> Raise e s1
      | Emptied s1 \<Rightarrow> Done (completeUpdate s1)
      | Found n s1 \<Rightarrow>
          (case (if state (heap s1 n) = queue_state s1 then Done s1
                 else caught (case refs s1 (updater (heap s1 n)) of
                                None \<Rightarrow> Raise TypeError s1
                              | Some cb \<Rightarrow>
                                  runCallback f cb
                                    (s1\<lparr> calls := calls s1 @ [(n, queue_state s1)] \<rparr>))) of
             Diverge \<Rightarrow> Diverge
           | Raise e s2 \<Rightarrow> Raise e s2
           | Done s2 \<Rightarrow>
               (let s3 = s2\<lparr> cursorNode := Some n \<rparr>
                in if isWorking s3
                   then Done (s3\<lparr> microtasks := microtasks s3 @ [ContinueUpdate] \<rparr>)
                   else if cursorNode s3 \<noteq> lastNode s3 then workLoop f s3
                   else Done (completeUpdate s3))))"
| "doUpdateWork f s =
     (if isWorking s then Done s
      else if lastNode s = None then Done (completeUpdate s)
      else workLoop f s)"
| "startUpdate f s =
     (if isWorking s then Done s
      else if states s = [] then Done s
      else (let s1 = s\<lparr> queue_state := last (states s) \<rparr>;
                s2 = s1\<lparr> states := [] \<rparr>
            in if lastNode s2 = None then Done s2
               else if cursorNode s2 \<noteq> lastNode s2 then Raise UnfinishedUpdate s2
               else doUpdateWork f
                      (s2\<lparr> stateOnUpdate := stateCt s2, updates := updates s2 + 1 \<rparr>)))"
| "newState f v s =
     (if queue_state s \<noteq> v
      then startUpdate f (s\<lparr> stateCt := stateCt s + 1, states := states s @ [v] \<rparr>)
      else Done s)"
| "runCallback f [] s = Done s"
| "runCallback f (a # as) s =
     (case (case a of
              CallUpdating n \<Rightarrow> Done (s\<lparr> isWorking := True, workNode := Some n \<rparr>)
            | CallNewState v \<Rightarrow> newState f v s
            | CallCreate u \<Rightarrow> Done (snd (create u s))
            | ClearCurrent u \<Rightarrow> Done (s\<lparr> refs := (refs s)(u := None) \<rparr>)
            | Throw v \<Rightarrow> Raise v s) of
        Done s1 \<Rightarrow> runCallback f as s1
      | r \<Rightarrow> r)"

definition continueUpdate :: "nat \<Rightarrow> sched \<Rightarrow> res" where
  "continueUpdate f s = doUpdateWork f (s\<lparr> workNode := None, isWorking := False \<rparr>)"

definition runTask :: "nat \<Rightarrow> task \<Rightarrow> sched \<Rightarrow> res" where
  "runTask f t s =
     (case t of
        ContinueUpdate \<Rightarrow> continueUpdate f s
      | StartUpdate \<Rightarrow> startUpdate f s
      | Rethrow k \<Rightarrow> Raise (evars s k) s)"

text \<open>
  Registration as \<open>useSelector\<close> does it: \<open>createNode(updateRef)\<close> on the first render,
  then the layout effect stores the callback in \<open>updateRef.current\<close>.
\<close>

definition mount :: "nat \<Rightarrow> action list \<Rightarrow> sched \<Rightarrow> sched" where
  "mount u cb s = (let s1 = snd (create u s) in s1\<lparr> refs := (refs s1)(u := Some cb) \<rparr>)"

section \<open>The ring invariant\<close>

text \<open>
  \<open>chain h [a, b, c, ...]\<close>: each node's \<open>nextNode\<close> is the next element of the list.
  \<open>ring s ns\<close>: the queue's resident nodes are the distinct nodes \<open>ns\<close>, in ring order
  from the head (the tail's successor) to the tail, the tail's \<open>nextNode\<close> closes the
  circle, and the cursor is a resident node. \<open>lap h k a\<close> is the list of the \<open>k\<close> nodes
  met by following \<open>nextNode\<close> from \<open>a\<close>.
\<close>

fun chain :: "(nat \<Rightarrow> node) \<Rightarrow> nat list \<Rightarrow> bool" where
  "chain h [] = True"
| "chain h [a] = True"
| "chain h (a # b # r) = (nextNode (h a) = Some b \<and> chain h (b # r))"

definition ring :: "sched \<Rightarrow> nat list \<Rightarrow> bool" where
  "ring s ns =
     (if ns = [] then lastNode s = None \<and> cursorNode s = None
      else distinct ns \<and> lastNode s = Some (last ns) \<and>
           (case cursorNode s of None \<Rightarrow> False | Some c \<Rightarrow> c \<in> set ns) \<and>
           chain (heap s) (last ns # ns))"

fun lap :: "(nat \<Rightarrow> node) \<Rightarrow> nat \<Rightarrow> nat \<Rightarrow> nat list option" where
  "lap h 0 a = Some []"
| "lap h (Suc k) a =
     (case nextNode (h a) of None \<Rightarrow> None
      | Some b \<Rightarrow> map_option (Cons b) (lap h k b))"

section \<open>Specification-level notions\<close>

text \<open>
  \<open>frame s s'\<close>: what no entry point ever undoes. The submission counter and the node
  counter only grow, and the \<open>state\<close> stamp of an existing node is never written again.
\<close>

definition frame :: "sched \<Rightarrow> sched \<Rightarrow> bool" where
  "frame s s' = (stateCt s \<le> stateCt s' \<and> nodeCount s \<le> nodeCount s' \<and>
     (\<forall>n < nodeCount s. state (heap s' n) = state (heap s n)))"

definition res_frame :: "sched \<Rightarrow> res \<Rightarrow> bool" where
  "res_frame s r = (case r of Done s' \<Rightarrow> frame s s' | Raise e s' \<Rightarrow> frame s s' | Diverge \<Rightarrow> True)"

definition and_then :: "res \<Rightarrow> (sched \<Rightarrow> res) \<Rightarrow> res" where
  "and_then r k = (case r of Done s \<Rightarrow> k s | _ \<Rightarrow> r)"

definition on_done :: "(sched \<Rightarrow> 'a) \<Rightarrow> res \<Rightarrow> 'a option" where
  "on_done g r = (case r of Done s \<Rightarrow> Some (g s) | _ \<Rightarrow> None)"

definition on_raise :: "res \<Rightarrow> jsval option" where
  "on_raise r = (case r of Raise e s \<Rightarrow> Some e | _ \<Rightarrow> None)"

text \<open>A concrete updater for examples: two mounted subscribers whose callbacks do nothing.\<close>

definition idle2 :: sched where
  "idle2 = mount 1 [] (mount 0 [] initial)"

text \<open>
  For statements about a whole lap: the callback of a node, whether a node is behind
  \<open>queue.state\<close>, callbacks that make no call into the updater (they return or throw at
  once), and the state a lap over the nodes \<open>ns\<close> leaves behind when every visited node
  is alive: one log entry per stale node, the thrown values buffered in visiting order,
  the cursor on the last node.
\<close>

definition callback_of :: "sched \<Rightarrow> nat \<Rightarrow> action list option" where
  "callback_of s n = refs s (updater (heap s n))"

definition stale :: "sched \<Rightarrow> nat \<Rightarrow> bool" where
  "stale s n = (state (heap s n) \<noteq> queue_state s)"

fun inert :: "action list \<Rightarrow> bool" where
  "inert [] = True"
| "inert (Throw v # r) = True"
| "inert (a # r) = False"

fun thrown_by :: "action list \<Rightarrow> jsval list" where
  "thrown_by (Throw v # r) = [v]"
| "thrown_by cb = []"

definition errors_of :: "sched \<Rightarrow> nat \<Rightarrow> jsval list" where
  "errors_of s n = (case callback_of s n of None \<Rightarrow> [] | Some cb \<Rightarrow> thrown_by cb)"

definition after_lap :: "sched \<Rightarrow> nat list \<Rightarrow> sched" where
  "after_lap s ns =
     s\<lparr> calls := calls s @ map (\<lambda>n. (n, queue_state s)) (filter (stale s) ns),
        caughtErrors := caughtErrors s @ concat (map (errors_of s) (filter (stale s) ns)),
        cursorNode := Some (last ns) \<rparr>"

text \<open>
  Observations on concrete runs: the stamps of some nodes, and more example updaters.
  In \<open>suspending2\<close> the tail node's callback calls \<open>updating\<close>; in \<open>throwing1\<close> the first
  callback throws an object; in \<open>throwing2\<close> the second throws the number \<open>0\<close> as well.
\<close>

definition stamps :: "nat list \<Rightarrow> sched \<Rightarrow> jsval list" where
  "stamps ns s = map (\<lambda>n. state (heap s n)) ns"

definition suspending2 :: sched where
  "suspending2 = mount 1 [CallUpdating 1] (mount 0 [] initial)"

definition throwing1 :: sched where
  "throwing1 = mount 1 [] (mount 0 [Throw (JObj 7)] initial)"

definition throwing2 :: sched where
  "throwing2 = mount 1 [Throw (JNum 0)] (mount 0 [Throw (JObj 7)] initial)"

text \<open>
  Which snapshots can still reach a callback. \<open>subm cb\<close> are the snapshots a callback
  submits, \<open>submitted s\<close> those submitted by any callback now stored in an updater cell.
  \<open>allowed s\<close> are the snapshots that are \<open>queue.state\<close> or can become it without a
  new submission from outside: \<open>queue.state\<close> itself, the last pending snapshot (all
  \<open>startUpdate\<close> ever installs), and what the callbacks submit. \<open>ctl s s'\<close>: nothing of
  this, nor the call log or the pass counter, differs between \<open>s\<close> and \<open>s'\<close>.
  \<open>confined B s s'\<close>: from \<open>s\<close> to \<open>s'\<close> no snapshot outside \<open>B\<close> was shown to a
  callback or has become allowed, and when \<open>B\<close> is no more than \<open>queue.state\<close> and nothing
  is pending, no further pass was started. \<open>res_state\<close> is the state a call leaves behind,
  whether it returns or throws. \<open>mixed3\<close> is an example updater of three nodes: the
  callback of the first calls \<open>updating\<close>, the second does nothing, the third is dead.
\<close>

definition subm :: "action list \<Rightarrow> jsval set" where
  "subm cb = {v. CallNewState v \<in> set cb}"

definition submitted :: "sched \<Rightarrow> jsval set" where
  "submitted s = {v. \<exists>u cb. refs s u = Some cb \<and> v \<in> subm cb}"

definition allowed :: "sched \<Rightarrow> jsval set" where
  "allowed s =
     insert (queue_state s) (set (if states s = [] then [] else [last (states s)]) \<union> submitted s)"

definition ctl :: "sched \<Rightarrow> sched \<Rightarrow> bool" where
  "ctl s s' = (refs s' = refs s \<and> queue_state s' = queue_state s \<and> states s' = states s \<and>
     calls s' = calls s \<and> updates s' = updates s)"

definition confined :: "jsval set \<Rightarrow> sched \<Rightarrow> sched \<Rightarrow> bool" where
  "confined B s s' =
     (allowed s' \<subseteq> B \<and> (\<exists>xs. calls s' = calls s @ xs \<and> snd ` set xs \<subseteq> B) \<and>
      (B \<subseteq> {queue_state s} \<and> states s = [] \<longrightarrow> updates s' = updates s \<and> states s' = []))"

definition res_confined :: "jsval set \<Rightarrow> sched \<Rightarrow> res \<Rightarrow> bool" where
  "res_confined B s r =
     (case r of Done s' \<Rightarrow> confined B s s' | Raise e s' \<Rightarrow> confined B s s' | Diverge \<Rightarrow> True)"

definition res_state :: "res \<Rightarrow> sched option" where
  "res_state r = (case r of Done s \<Rightarrow> Some s | Raise e s \<Rightarrow> Some s | Diverge \<Rightarrow> None)"


section \<open>Facts about the ring\<close>

lemma chain_Cons: "chain h (a # xs) = (xs = [] \<or> (nextNode (h a) = Some (hd xs) \<and> chain h xs))"
  by (cases xs) auto

lemma chain_split: "chain h (xs @ m # ys) = (chain h (xs @ [m]) \<and> chain h (m # ys))"
  by (induction xs rule: chain.induct) (auto simp: chain_Cons)

lemma chain_set_next: "a \<notin> set (butlast xs) \<Longrightarrow> chain (set_next a v h) xs = chain h xs"
  by (induction xs rule: chain.induct) (auto simp: set_next_def)

lemma chain_lap: "chain h (a # vs) \<Longrightarrow> lap h (length vs) a = Some vs"
  by (induction vs arbitrary: a) (auto)

lemma ring_lap:
  assumes "ring s ns" "a \<in> set ns"
  shows "\<exists>vs. lap (heap s) (length ns) a = Some vs \<and> last vs = a \<and> distinct vs \<and> set vs = set ns"
proof -
  from assms(2) obtain xs ys where ns: "ns = xs @ a # ys" by (auto simp: in_set_conv_decomp)
  have ne: "ns \<noteq> []" using ns by simp
  from assms(1) ne have d: "distinct ns" and ch: "chain (heap s) (last ns # ns)"
    by (auto simp: ring_def)
  have "chain (heap s) (a # ys @ xs @ [a])"
  proof (cases ys rule: rev_cases)
    case Nil
    then show ?thesis using ch ns by simp
  next
    case (snoc zs l)
    with ch ns have 1: "chain (heap s) ((l # xs) @ a # zs @ [l])" by simp
    then have "chain (heap s) (l # xs @ [a])" "chain (heap s) (a # zs @ [l])"
      using chain_split [of "heap s" "l # xs" a "zs @ [l]"] by simp_all
    then have "chain (heap s) ((a # zs) @ l # xs @ [a])"
      using chain_split [of "heap s" "a # zs" l "xs @ [a]"] by simp
    then show ?thesis using snoc by simp
  qed
  then have "lap (heap s) (length (ys @ xs @ [a])) a = Some (ys @ xs @ [a])"
    by (rule chain_lap)
  moreover have "length (ys @ xs @ [a]) = length ns" using ns by simp
  ultimately have "lap (heap s) (length ns) a = Some (ys @ xs @ [a])" by (simp only:)
  moreover have "distinct (ys @ xs @ [a])" "set (ys @ xs @ [a]) = set ns"
    using ns d by auto
  ultimately show ?thesis by (intro exI [of _ "ys @ xs @ [a]"]) simp
qed

lemma ring_initial: "ring initial []"
  by (simp add: ring_def initial_def)

lemma ring_append:
  assumes "ring s ns" "n \<notin> set ns"
  shows "ring (appendNodeToQueue n s) (ns @ [n])"
proof (cases ns rule: rev_cases)
  case Nil
  then show ?thesis using assms
    by (simp add: ring_def appendNodeToQueue_def set_next_def)
next
  case (snoc bs l)
  from assms snoc have d: "distinct (bs @ [l])" and l: "lastNode s = Some l"
    and c: "\<exists>c. cursorNode s = Some c \<and> c \<in> set (bs @ [l])"
    and ch: "chain (heap s) (l # bs @ [l])"
    by (auto simp: ring_def split: option.splits)
  from ch have hdn: "nextNode (heap s l) = Some (hd (bs @ [l]))" and ch': "chain (heap s) (bs @ [l])"
    by (auto simp: chain_Cons)
  let ?h = "set_next l (Some n) (set_next n (nextNode (heap s l)) (heap s))"
  have nl: "n \<noteq> l" "n \<notin> set bs" "l \<notin> set bs" using assms(2) snoc d by auto
  have 1: "chain ?h (bs @ [l]) " using ch' nl by (simp add: chain_set_next)
  have 2: "nextNode (?h n) = Some (hd (bs @ [l]))" using hdn nl by (simp add: set_next_def)
  have 3: "nextNode (?h l) = Some n" by (simp add: set_next_def)
  have "chain ?h ((n # bs) @ l # [n])"
    using chain_split [of ?h "n # bs" l "[n]"] 1 2 3 by (simp add: chain_Cons)
  then show ?thesis using snoc l c d nl
    by (auto simp: ring_def appendNodeToQueue_def Let_def)
qed

lemma chain_next:
  "chain h (xs @ a # b # ys) \<Longrightarrow> nextNode (h a) = Some b"
  using chain_split [of h xs a "b # ys"] by simp

lemma chain_set_next_notin:
  "a \<notin> set xs \<Longrightarrow> chain (set_next a v h) xs = chain h xs"
  by (rule chain_set_next) (auto dest: in_set_butlastD)

lemma ring_remove:
  assumes "ring s ns" "ns \<noteq> []"
  shows "\<exists>c r s'. cursorNode s = Some c \<and> nextNode (heap s c) = Some r \<and> r \<in> set ns \<and>
           removeCurrentNode s = Done s' \<and> ring s' (remove1 r ns) \<and>
           (ns = [r] \<longrightarrow> lastNode s' = None \<and> cursorNode s' = None) \<and>
           (length ns > 1 \<longrightarrow> cursorNode s' = Some c \<and> c \<noteq> r \<and>
              lastNode s' = (if r = last ns then Some c else lastNode s))"
proof -
  from assms obtain c where d: "distinct ns" and l: "lastNode s = Some (last ns)"
    and c: "cursorNode s = Some c" "c \<in> set ns"
    and ch: "chain (heap s) (last ns # ns)"
    by (auto simp: ring_def split: option.splits)
  from c(2) obtain xs ys where ns: "ns = xs @ c # ys" by (auto simp: in_set_conv_decomp)
  consider (one) "xs = []" "ys = []"
    | (wrap) r xs' where "ys = []" "xs = r # xs'"
    | (tail) r where "ys = [r]"
    | (mid) r y ys' where "ys = r # y # ys'"
    by (cases xs; cases ys rule: list.exhaust; cases "tl ys") auto
  then show ?thesis
  proof cases
    case one
    with ns ch have "nextNode (heap s c) = Some c" by simp
    with one ns l c show ?thesis
      by (simp add: removeCurrentNode_def ring_def)
  next
    case wrap
    with ns have ns': "ns = r # xs' @ [c]" by simp
    from ch ns' have nc: "nextNode (heap s c) = Some r"
      and nr: "nextNode (heap s r) = Some (hd (xs' @ [c]))"
      and ch': "chain (heap s) (xs' @ [c])"
      by (auto simp: chain_Cons)
    from d ns' have ne: "r \<noteq> c" "c \<notin> set xs'" "r \<notin> set xs'" by auto
    have "chain (set_next c (Some (hd (xs' @ [c]))) (heap s)) (c # xs' @ [c])"
      using ch' ne by (simp add: chain_Cons chain_set_next) (simp add: set_next_def)
    with ns' l c nc nr ne d show ?thesis
      by (simp add: removeCurrentNode_def ring_def)
  next
    case tail
    with ns have ns': "ns = xs @ [c, r]" by simp
    from ch ns' have nc: "nextNode (heap s c) = Some r"
      using chain_next [of "heap s" "r # xs" c r "[]"] by simp
    from ch ns' have nr: "nextNode (heap s r) = Some (hd (xs @ [c]))"
      by (cases xs) (auto)
    from ch ns' have ch': "chain (heap s) (xs @ [c])"
      using chain_split [of "heap s" "r # xs" c "[r]"] by (simp add: chain_Cons)
    from d ns' have ne: "r \<noteq> c" "c \<notin> set xs" "r \<notin> set xs" by auto
    have "chain (set_next c (Some (hd (xs @ [c]))) (heap s)) (c # xs @ [c])"
      using ch' ne by (simp add: chain_Cons chain_set_next) (simp add: set_next_def)
    moreover have "hd (xs @ [c]) \<noteq> r" using ne by (cases xs) auto
    ultimately show ?thesis using ns' l c nc nr ne d
      by (simp add: removeCurrentNode_def ring_def remove1_append)
  next
    case mid
    with ns have ns': "ns = xs @ c # r # y # ys'" by simp
    define L where "L = last (y # ys')"
    from ns' have L: "last ns = L" by (simp add: L_def)
    from ch ns' L have nc: "nextNode (heap s c) = Some r"
      using chain_next [of "heap s" "L # xs" c r "y # ys'"] by simp
    from ch ns' L have nr: "nextNode (heap s r) = Some y"
      using chain_next [of "heap s" "L # xs @ [c]" r y "ys'"] by simp
    from ch ns' L have ch1: "chain (heap s) (L # xs @ [c])"
      using chain_split [of "heap s" "L # xs" c "r # y # ys'"] by simp
    from ch ns' L have ch2: "chain (heap s) (y # ys')"
      using chain_split [of "heap s" "L # xs @ [c, r]" y "ys'"] by simp
    have Lin: "L \<in> set (y # ys')" unfolding L_def by (rule last_in_set) simp
    from d ns' Lin have ne: "r \<noteq> c" "c \<notin> set xs" "r \<notin> set xs" "c \<notin> set (y # ys')"
       "r \<noteq> L" "c \<noteq> L" "r \<noteq> y" "r \<notin> set ys'"
      by auto
    let ?h = "set_next c (Some y) (heap s)"
    have a: "chain ?h (L # xs @ [c])"
      using ch1 ne chain_set_next [of c "L # xs @ [c]" "Some y" "heap s"]
      by (simp add: butlast_append)
    have b: "chain ?h (y # ys')"
      using ch2 chain_set_next_notin [OF ne(4), of "Some y" "heap s"] by blast
    have e: "nextNode (?h c) = Some y" by (simp add: set_next_def)
    have "chain ?h (L # xs @ c # y # ys')"
      using chain_split [of ?h "L # xs" c "y # ys'"] a b e by (simp add: chain_Cons)
    moreover have "last (c # y # ys') = L" "last (xs @ c # y # ys') = L" by (simp_all add: L_def)
    moreover have "nextNode (heap s L) = Some (hd (xs @ [c]))"
      using ch1 by (simp add: chain_Cons)
    moreover have "hd (xs @ [c]) \<noteq> L" using ne Lin d ns' by (cases xs) auto
    ultimately show ?thesis using ns' l c nc nr ne d L
      by (simp add: removeCurrentNode_def ring_def remove1_append del: last.simps)
  qed
qed

lemma chain_fun_upd: "a \<notin> set xs \<Longrightarrow> chain (h(a := x)) xs = chain h xs"
  by (induction xs rule: chain.induct) auto

lemma ring_create:
  assumes "ring s ns" "nodeCount s \<notin> set ns"
  shows "ring (snd (create u s)) (ns @ [nodeCount s])"
proof -
  let ?n = "nodeCount s"
  let ?s1 = "s\<lparr> nodeCount := ?n + 1,
                heap := (heap s)(?n := \<lparr> updater = u, state = queue_state s, nextNode = None \<rparr>) \<rparr>"
  have "ring ?s1 ns"
  proof (cases "ns = []")
    case True
    with assms show ?thesis by (simp add: ring_def)
  next
    case False
    with assms(2) have "?n \<notin> set (last ns # ns)" using last_in_set [of ns] by auto
    then have "chain (heap ?s1) (last ns # ns) = chain (heap s) (last ns # ns)"
      using chain_fun_upd [of ?n "last ns # ns" "heap s"] by simp
    with assms False show ?thesis by (simp add: ring_def)
  qed
  then have "ring (appendNodeToQueue ?n ?s1) (ns @ [?n])"
    using assms(2) by (rule ring_append)
  then show ?thesis by (simp add: create_def Let_def)
qed

section \<open>Claims about the circular queue\<close>

text \<open>
  Claim C6. The ring invariant holds for the empty queue of a fresh updater, is preserved by
  appending a node that is not yet resident (so by every \<open>create\<close>, whose node is new) and
  by \<open>removeCurrentNode\<close> on a non-empty ring. Under the invariant, following \<open>nextNode\<close>
  from any resident node for as many steps as there are resident nodes visits every
  resident node exactly once and ends at the start node, and the cursor's \<open>nextNode\<close> is a
  resident node (the next one due).
\<close>

theorem ring_invariant:
  "ring initial [] \<and>
   (ring s ns \<and> n \<notin> set ns \<longrightarrow> ring (appendNodeToQueue n s) (ns @ [n])) \<and>
   (ring s ns \<and> nodeCount s \<notin> set ns \<longrightarrow> ring (snd (create u s)) (ns @ [nodeCount s])) \<and>
   (ring s ns \<and> ns \<noteq> [] \<longrightarrow>
      (\<exists>c r s'. cursorNode s = Some c \<and> nextNode (heap s c) = Some r \<and> r \<in> set ns \<and>
         removeCurrentNode s = Done s' \<and> ring s' (remove1 r ns))) \<and>
   (ring s ns \<and> a \<in> set ns \<longrightarrow>
      (\<exists>vs. lap (heap s) (length ns) a = Some vs \<and> last vs = a \<and> distinct vs \<and>
         set vs = set ns))"
proof (intro conjI impI)
  show "ring initial []" by (rule ring_initial)
next
  assume "ring s ns \<and> n \<notin> set ns"
  then show "ring (appendNodeToQueue n s) (ns @ [n])" by (simp add: ring_append)
next
  assume "ring s ns \<and> nodeCount s \<notin> set ns"
  then show "ring (snd (create u s)) (ns @ [nodeCount s])" by (simp add: ring_create)
next
  assume "ring s ns \<and> ns \<noteq> []"
  then have "ring s ns" "ns \<noteq> []" by simp_all
  from ring_remove [OF this]
  show "\<exists>c r s'. cursorNode s = Some c \<and> nextNode (heap s c) = Some r \<and> r \<in> set ns \<and>
         removeCurrentNode s = Done s' \<and> ring s' (remove1 r ns)"
    by blast
next
  assume "ring s ns \<and> a \<in> set ns"
  then show "\<exists>vs. lap (heap s) (length ns) a = Some vs \<and> last vs = a \<and> distinct vs \<and>
         set vs = set ns"
    by (simp add: ring_lap)
qed

theorem ring_invariant_witness:
  "ring (mount 1 [] (mount 0 [] initial)) [0, 1] \<and> (2::nat) \<notin> set [0, 1] \<and>
   [0, 1::nat] \<noteq> [] \<and> (1::nat) \<in> set [0, 1] \<and>
   ring (appendNodeToQueue 2 (mount 1 [] (mount 0 [] initial))) ([0, 1] @ [2]) \<and>
   nodeCount (mount 1 [] (mount 0 [] initial)) \<notin> set [0, 1] \<and>
   ring (snd (create 7 (mount 1 [] (mount 0 [] initial))))
     ([0, 1] @ [nodeCount (mount 1 [] (mount 0 [] initial))]) \<and>
   (\<exists>c r s'. cursorNode (mount 1 [] (mount 0 [] initial)) = Some c \<and>
      nextNode (heap (mount 1 [] (mount 0 [] initial)) c) = Some r \<and> r \<in> set [0, 1] \<and>
      removeCurrentNode (mount 1 [] (mount 0 [] initial)) = Done s' \<and>
      ring s' (remove1 r [0, 1])) \<and>
   (\<exists>vs. lap (heap (mount 1 [] (mount 0 [] initial))) (length [0, 1::nat]) 1 = Some vs \<and>
      last vs = 1 \<and> distinct vs \<and> set vs = set [0, 1])"
proof -
  let ?s = "mount 1 [] (mount 0 [] initial)"
  have r: "ring ?s [0, 1]"
    by (simp add: ring_def mount_def create_def appendNodeToQueue_def initial_def set_next_def)
  have m: "(2::nat) \<notin> set [0, 1]" "[0, 1::nat] \<noteq> []" "(1::nat) \<in> set [0, 1]"
    by simp_all
  have k: "nodeCount ?s \<notin> set [0, 1]"
    by (simp add: mount_def create_def appendNodeToQueue_def initial_def)
  from ring_invariant [of ?s "[0, 1]" 2 7 1] r m k show ?thesis
    by blast
qed

text \<open>
  Claim C7. Appending a node that is not resident: on the empty ring the node becomes its
  own successor and both cursor and tail point to it; on a non-empty ring the node takes
  over the tail's successor (the head), the old tail points to the node, the node is the new
  tail, and the cursor moves to the new node exactly when it was at the old tail (otherwise
  it stays where it was).
\<close>

theorem appendNodeToQueue_splice:
  assumes "ring s ns" and "n \<notin> set ns"
  shows "lastNode (appendNodeToQueue n s) = Some n \<and>
     (ns = [] \<longrightarrow>
        nextNode (heap (appendNodeToQueue n s) n) = Some n \<and>
        cursorNode (appendNodeToQueue n s) = Some n \<and>
        ring (appendNodeToQueue n s) [n]) \<and>
     (ns \<noteq> [] \<longrightarrow>
        nextNode (heap s (last ns)) = Some (hd ns) \<and>
        nextNode (heap (appendNodeToQueue n s) n) = Some (hd ns) \<and>
        nextNode (heap (appendNodeToQueue n s) (last ns)) = Some n \<and>
        (cursorNode (appendNodeToQueue n s) = Some n \<longleftrightarrow> cursorNode s = Some (last ns)) \<and>
        (cursorNode s \<noteq> Some (last ns) \<longrightarrow>
           cursorNode (appendNodeToQueue n s) = cursorNode s) \<and>
        ring (appendNodeToQueue n s) (ns @ [n]))"
proof (cases "ns = []")
  case True
  with assms show ?thesis
    using ring_append [OF assms]
    by (simp add: ring_def appendNodeToQueue_def set_next_def)
next
  case False
  with assms obtain c where l: "lastNode s = Some (last ns)"
    and c: "cursorNode s = Some c" "c \<in> set ns"
    and ch: "chain (heap s) (last ns # ns)"
    by (auto simp: ring_def split: option.splits)
  from ch False have hd: "nextNode (heap s (last ns)) = Some (hd ns)"
    by (simp add: chain_Cons)
  from False assms(2) have nl: "n \<noteq> last ns" "c \<noteq> n"
    using last_in_set c by auto
  from False l c hd nl ring_append [OF assms] show ?thesis
    by (auto simp: appendNodeToQueue_def set_next_def Let_def)
qed

theorem appendNodeToQueue_splice_witness:
  "ring (mount 1 [] (mount 0 [] initial)) [0, 1] \<and> (2::nat) \<notin> set [0, 1] \<and>
   lastNode (appendNodeToQueue 2 (mount 1 [] (mount 0 [] initial))) = Some 2 \<and>
   nextNode (heap (appendNodeToQueue 2 (mount 1 [] (mount 0 [] initial))) 2) = Some 0 \<and>
   nextNode (heap (appendNodeToQueue 2 (mount 1 [] (mount 0 [] initial))) 1) = Some 2 \<and>
   cursorNode (appendNodeToQueue 2 (mount 1 [] (mount 0 [] initial))) = Some 2 \<and>
   ring initial [] \<and> (0::nat) \<notin> set [] \<and>
   nextNode (heap (appendNodeToQueue 0 initial) 0) = Some 0 \<and>
   cursorNode (appendNodeToQueue 0 initial) = Some 0"
proof -
  let ?s = "mount 1 [] (mount 0 [] initial)"
  have r: "ring ?s [0, 1]"
    by (simp add: ring_def mount_def create_def appendNodeToQueue_def initial_def set_next_def)
  have c: "cursorNode ?s = Some 1"
    by (simp add: mount_def create_def appendNodeToQueue_def initial_def set_next_def)
  have n: "(2::nat) \<notin> set [0, 1]" "(0::nat) \<notin> set []" by simp_all
  from appendNodeToQueue_splice [OF r n(1)] appendNodeToQueue_splice [OF ring_initial n(2)] r c
    ring_initial
  show ?thesis by simp
qed

text \<open>
  Claim C8. On a non-empty ring \<open>removeCurrentNode\<close> removes exactly the node after the
  cursor and keeps every other node: a sole member leaves the ring empty with tail and
  cursor cleared; with more than one member the cursor's own node stays and remains the
  cursor, and the tail moves back to the cursor exactly when the removed node was the tail.
\<close>

theorem removeCurrentNode_removes_next:
  assumes "ring s ns" and "ns \<noteq> []"
  shows "\<exists>c r s'. cursorNode s = Some c \<and> nextNode (heap s c) = Some r \<and> r \<in> set ns \<and>
           removeCurrentNode s = Done s' \<and> ring s' (remove1 r ns) \<and>
           set (remove1 r ns) = set ns - {r} \<and>
           (ns = [r] \<longrightarrow> lastNode s' = None \<and> cursorNode s' = None) \<and>
           (length ns > 1 \<longrightarrow> cursorNode s' = Some c \<and> c \<noteq> r \<and> c \<in> set (remove1 r ns) \<and>
              lastNode s' = (if r = last ns then Some c else lastNode s))"
proof -
  from assms have d: "distinct ns" by (simp add: ring_def)
  from ring_remove [OF assms] obtain c r s' where
    *: "cursorNode s = Some c" "nextNode (heap s c) = Some r" "r \<in> set ns"
       "removeCurrentNode s = Done s'" "ring s' (remove1 r ns)"
       "ns = [r] \<longrightarrow> lastNode s' = None \<and> cursorNode s' = None"
       "length ns > 1 \<longrightarrow> cursorNode s' = Some c \<and> c \<noteq> r \<and>
              lastNode s' = (if r = last ns then Some c else lastNode s)"
    by blast
  have "c \<in> set ns" using assms *(1) by (auto simp: ring_def)
  with d * show ?thesis by (intro exI [of _ c] exI [of _ r] exI [of _ s']) auto
qed

theorem removeCurrentNode_removes_next_witness:
  "ring (mount 1 [] (mount 0 [] initial)) [0, 1] \<and> [0, 1::nat] \<noteq> [] \<and>
   (\<exists>s'. removeCurrentNode (mount 1 [] (mount 0 [] initial)) = Done s' \<and> ring s' [1] \<and>
      cursorNode s' = Some 1 \<and> lastNode s' = Some 1)"
proof -
  let ?s = "mount 1 [] (mount 0 [] initial)"
  have r: "ring ?s [0, 1]"
    by (simp add: ring_def mount_def create_def appendNodeToQueue_def initial_def set_next_def)
  have c: "cursorNode ?s = Some 1" "nextNode (heap ?s 1) = Some 0" "lastNode ?s = Some 1"
    by (simp_all add: mount_def create_def appendNodeToQueue_def initial_def set_next_def)
  have n: "[0, 1::nat] \<noteq> []" by simp
  from removeCurrentNode_removes_next [OF r n] r c show ?thesis
    by auto
qed

section \<open>Facts about the scheduler\<close>

lemma removeCurrentNode_raise: "removeCurrentNode s = Raise e s' \<Longrightarrow> e = TypeError"
  by (auto simp: removeCurrentNode_def Let_def split: option.splits if_splits)

lemma removeCurrentNode_not_Diverge: "removeCurrentNode s \<noteq> Diverge"
  by (auto simp: removeCurrentNode_def Let_def split: option.splits if_splits)

lemma skipDead_raise: "skipDead f s = SkipRaise e s' \<Longrightarrow> e = TypeError"
proof (induction f s rule: skipDead.induct)
  case (1 s)
  then show ?case by simp
next
  case (2 f s)
  then show ?case
    by (auto split: option.splits if_splits res.splits dest: removeCurrentNode_raise)
qed

lemma caught_not_Raise: "caught r \<noteq> Raise e s"
  by (simp add: caught_def split: res.splits)

lemma workLoop_raise: "workLoop f s = Raise e s' \<Longrightarrow> e = TypeError"
proof (induction f arbitrary: s)
  case 0
  then show ?case by simp
next
  case (Suc f)
  show ?case
  proof (cases "skipDead (Suc f) s")
    case (Found n s1)
    with Suc.prems Suc.IH show ?thesis
      by (auto simp: Let_def caught_not_Raise simp del: skipDead.simps
               split: res.splits if_splits)
  next
    case (Emptied s1)
    with Suc.prems show ?thesis by (simp del: skipDead.simps)
  next
    case (SkipRaise e1 s1)
    with Suc.prems skipDead_raise [OF SkipRaise] show ?thesis by (simp del: skipDead.simps)
  next
    case SkipDiverge
    with Suc.prems show ?thesis by (simp del: skipDead.simps)
  qed
qed

lemma doUpdateWork_raise: "doUpdateWork f s = Raise e s' \<Longrightarrow> e = TypeError"
  by (auto split: if_splits dest: workLoop_raise)

lemma frame_refl: "frame s s"
  by (simp add: frame_def)

lemma frame_trans: "frame s t \<Longrightarrow> frame t u \<Longrightarrow> frame s u"
  by (auto simp: frame_def)

lemma drainErrors_fields:
  "stateCt (drainErrors k s) = stateCt s \<and> nodeCount (drainErrors k s) = nodeCount s \<and>
   heap (drainErrors k s) = heap s"
proof (induction k s rule: drainErrors.induct)
  case (1 k s)
  show ?case
  proof (cases "caughtErrors s = [] \<or> \<not> truthy (last (caughtErrors s))")
    case True
    then show ?thesis by (subst (1 2 3) drainErrors.simps) (auto simp: Let_def)
  next
    case False
    with 1 [OF _ refl refl] show ?thesis
      by (subst (1 2 3) drainErrors.simps) (simp add: Let_def)
  qed
qed

lemma frame_completeUpdate: "frame s (completeUpdate s)"
  using drainErrors_fields
    [of "evarCt s" "s\<lparr> evarCt := evarCt s + 1, evars := (evars s)(evarCt s := JUndefined) \<rparr>"]
  by (simp add: frame_def completeUpdate_def checkForNextUpdate_def Let_def)

lemma frame_removeCurrentNode: "res_frame s (removeCurrentNode s)"
  by (auto simp: res_frame_def frame_def removeCurrentNode_def set_next_def Let_def
           split: option.splits)


lemma frame_skipDead:
  "(case skipDead f s of Found n s' \<Rightarrow> frame s s' | Emptied s' \<Rightarrow> frame s s'
    | SkipRaise e s' \<Rightarrow> frame s s' | SkipDiverge \<Rightarrow> True)"
proof (induction f s rule: skipDead.induct)
  case (1 s)
  then show ?case by simp
next
  case (2 f s)
  show ?case
  proof (cases "cursorNode s")
    case None
    then show ?thesis by (simp add: frame_refl)
  next
    case (Some c)
    note c = this
    show ?thesis
    proof (cases "nextNode (heap s c)")
      case None
      with c show ?thesis by (simp add: frame_refl)
    next
      case (Some n)
      note n = this
      show ?thesis
      proof (cases "refs s (updater (heap s n)) = None")
        case False
        with c n show ?thesis by (auto simp add: frame_refl)
      next
        case True
        show ?thesis
        proof (cases "removeCurrentNode s")
          case (Done s1)
          with frame_removeCurrentNode [of s] have f1: "frame s s1" by (simp add: res_frame_def)
          show ?thesis
          proof (cases "lastNode s1 = None")
            case True
            with c n \<open>refs s (updater (heap s n)) = None\<close> Done f1 show ?thesis by simp
          next
            case False
            from 2 [OF c n True Done False] f1
            have "case skipDead f s1 of Found n s' \<Rightarrow> frame s s' | Emptied s' \<Rightarrow> frame s s'
                  | SkipRaise e s' \<Rightarrow> frame s s' | SkipDiverge \<Rightarrow> True"
              by (auto split: skipped.splits intro: frame_trans)
            with c n True Done False f1 show ?thesis by auto
          qed
        next
          case (Raise e s1)
          with frame_removeCurrentNode [of s] have f1: "frame s s1" by (simp add: res_frame_def)
          with c n True Raise show ?thesis by simp
        next
          case Diverge
          with c n True show ?thesis by simp
        qed
      qed
    qed
  qed
qed

lemma frame_create: "frame s (snd (create u s))"
  by (auto simp: frame_def create_def appendNodeToQueue_def set_next_def Let_def
           split: option.splits)

lemma res_frame_trans: "frame s t \<Longrightarrow> res_frame t r \<Longrightarrow> res_frame s r"
  by (auto simp: res_frame_def split: res.splits intro: frame_trans)

lemma res_frame_caught: "res_frame s r \<Longrightarrow> res_frame s (caught r)"
  by (auto simp: res_frame_def caught_def frame_def split: res.splits)

lemma frame_all:
  "res_frame s (workLoop f s)"
  "res_frame s (doUpdateWork f s)"
  "res_frame s (startUpdate f s)"
  "res_frame s (newState f v s)"
  "res_frame s (runCallback f cb s)"
proof (induction f s and f s and f s and f v s and f cb s
       rule: workLoop_doUpdateWork_startUpdate_newState_runCallback.induct)
  case (1 s)
  then show ?case by (simp add: res_frame_def)
next
  case (2 f s)
  note IH = this
  show ?case
  proof (cases "skipDead (Suc f) s")
    case SkipDiverge
    then show ?thesis by (simp add: res_frame_def del: skipDead.simps)
  next
    case (SkipRaise e s1)
    with frame_skipDead [where f = "Suc f" and s = s] show ?thesis
      by (simp add: res_frame_def del: skipDead.simps)
  next
    case (Emptied s1)
    with frame_skipDead [where f = "Suc f" and s = s] have "frame s s1" by (simp del: skipDead.simps)
    with Emptied show ?thesis
      by (auto simp: res_frame_def simp del: skipDead.simps
               intro: frame_trans frame_completeUpdate)
  next
    case (Found n s1)
    with frame_skipDead [where f = "Suc f" and s = s] have f1: "frame s s1" by (simp del: skipDead.simps)
    define r where "r = (if state (heap s1 n) = queue_state s1 then Done s1
                 else caught (case refs s1 (updater (heap s1 n)) of
                                None \<Rightarrow> Raise TypeError s1
                              | Some cb \<Rightarrow>
                                  runCallback f cb
                                    (s1\<lparr> calls := calls s1 @ [(n, queue_state s1)] \<rparr>)))"
    have wl: "workLoop (Suc f) s =
        (case r of Diverge \<Rightarrow> Diverge | Raise e s2 \<Rightarrow> Raise e s2
         | Done s2 \<Rightarrow>
               (let s3 = s2\<lparr> cursorNode := Some n \<rparr>
                in if isWorking s3
                   then Done (s3\<lparr> microtasks := microtasks s3 @ [ContinueUpdate] \<rparr>)
                   else if cursorNode s3 \<noteq> lastNode s3 then workLoop f s3
                   else Done (completeUpdate s3)))"
      using Found by (simp add: r_def del: skipDead.simps)
    have r1: "res_frame s1 r"
    proof (cases "state (heap s1 n) = queue_state s1")
      case True
      then show ?thesis by (simp add: r_def res_frame_def frame_refl)
    next
      case False
      note stale = this
      show ?thesis
      proof (cases "refs s1 (updater (heap s1 n))")
        case None
        with stale show ?thesis by (simp add: r_def res_frame_def caught_def frame_def)
      next
        case (Some cb)
        let ?s = "s1\<lparr> calls := calls s1 @ [(n, queue_state s1)] \<rparr>"
        have "res_frame ?s (runCallback f cb ?s)"
          by (rule IH(1) [OF Found stale Some])
        moreover have "frame s1 ?s" by (simp add: frame_def)
        ultimately have "res_frame s1 (runCallback f cb ?s)" by (rule res_frame_trans [rotated])
        then have "res_frame s1 (caught (runCallback f cb ?s))" by (rule res_frame_caught)
        with stale Some show ?thesis by (simp add: r_def)
      qed
    qed
    show ?thesis
    proof (cases r)
      case Diverge
      with wl show ?thesis by (simp add: res_frame_def)
    next
      case (Raise e s2)
      with wl r1 f1 show ?thesis by (auto simp: res_frame_def intro: frame_trans)
    next
      case (Done s2)
      let ?s3 = "s2\<lparr> cursorNode := Some n \<rparr>"
      from Done r1 f1 have f2: "frame s s2" by (auto simp: res_frame_def intro: frame_trans)
      then have f3: "frame s ?s3" by (simp add: frame_def)
      show ?thesis
      proof (cases "isWorking ?s3")
        case True
        with wl Done f3 show ?thesis by (simp add: res_frame_def frame_def)
      next
        case False
        note nw = this
        show ?thesis
        proof (cases "cursorNode ?s3 \<noteq> lastNode ?s3")
          case True
          have "res_frame ?s3 (workLoop f ?s3)"
            using IH(2) [OF Found _ refl nw True] Done by (simp add: r_def)
          with f3 have "res_frame s (workLoop f ?s3)" by (rule res_frame_trans)
          with wl Done nw True show ?thesis by (simp add: Let_def)
        next
          case False
          have "frame s (completeUpdate ?s3)"
            using f3 frame_completeUpdate by (rule frame_trans)
          with wl Done nw False show ?thesis by (simp add: Let_def res_frame_def)
        qed
      qed
    qed
  qed
next
  case (3 f s)
  then show ?case
    by (auto simp: frame_completeUpdate frame_refl res_frame_def)
next
  case (4 f s)
  note IH = this
  let ?s2 = "s\<lparr> queue_state := last (states s), states := [] \<rparr>"
  let ?s3 = "?s2\<lparr> stateOnUpdate := stateCt ?s2, updates := updates ?s2 + 1 \<rparr>"
  have f2: "frame s ?s2" "frame s ?s3" by (simp_all add: frame_def)
  show ?case
  proof (cases "\<not> isWorking s \<and> states s \<noteq> [] \<and> lastNode s \<noteq> None \<and> cursorNode s = lastNode s")
    case True
    then have "res_frame ?s3 (doUpdateWork f ?s3)"
      using IH [OF _ _ refl refl] by simp
    with f2(2) have "res_frame s (doUpdateWork f ?s3)" by (rule res_frame_trans)
    with True show ?thesis by (auto simp: Let_def simp del: doUpdateWork.simps)
  next
    case False
    with f2 show ?thesis
      by (auto simp: Let_def res_frame_def frame_refl simp del: doUpdateWork.simps)
  qed
next
  case (5 f v s)
  note IH = this
  let ?s1 = "s\<lparr> stateCt := stateCt s + 1, states := states s @ [v] \<rparr>"
  show ?case
  proof (cases "queue_state s \<noteq> v")
    case True
    have "frame s ?s1" by (simp add: frame_def)
    with IH [OF True] have "res_frame s (startUpdate f ?s1)" by (rule res_frame_trans [rotated])
    with True show ?thesis by (simp del: startUpdate.simps)
  next
    case False
    then show ?thesis by (simp add: res_frame_def frame_refl)
  qed
next
  case (6 f s)
  then show ?case by (simp add: res_frame_def frame_refl)
next
  case (7 f a as s)
  note IH = this
  define r where "r = (case a of
              CallUpdating n \<Rightarrow> Done (s\<lparr> isWorking := True, workNode := Some n \<rparr>)
            | CallNewState v \<Rightarrow> newState f v s
            | CallCreate u \<Rightarrow> Done (snd (create u s))
            | ClearCurrent u \<Rightarrow> Done (s\<lparr> refs := (refs s)(u := None) \<rparr>)
            | Throw v \<Rightarrow> Raise v s)"
  have rc: "runCallback f (a # as) s = (case r of Done s1 \<Rightarrow> runCallback f as s1 | r \<Rightarrow> r)"
    by (simp add: r_def del: newState.simps)
  have r1: "res_frame s r"
  proof (cases a)
    case (CallNewState v)
    with IH(1) [OF CallNewState] show ?thesis by (simp add: r_def del: newState.simps)
  next
    case (CallCreate u)
    then show ?thesis using frame_create [of s u] by (simp add: r_def res_frame_def)
  qed (simp_all add: r_def res_frame_def frame_def)
  show ?case
  proof (cases r)
    case (Done s1)
    with IH(2) have "res_frame s1 (runCallback f as s1)" by (simp add: r_def)
    moreover from r1 Done have "frame s s1" by (simp add: res_frame_def)
    ultimately have "res_frame s (runCallback f as s1)" by (rule res_frame_trans [rotated])
    with rc Done show ?thesis by simp
  next
    case (Raise e s1)
    with rc r1 show ?thesis by simp
  next
    case Diverge
    with rc show ?thesis by (simp add: res_frame_def)
  qed
qed

lemma idle2_fields:
  "lastNode idle2 = Some 1" "cursorNode idle2 = Some 1" "\<not> isWorking idle2"
  "states idle2 = []" "queue_state idle2 = JNull" "stateCt idle2 = 0" "updates idle2 = 0"
  by (simp_all add: idle2_def mount_def create_def appendNodeToQueue_def initial_def
        set_next_def)

section \<open>Claims about the update intake\<close>

text \<open>
  Claim C5. \<open>startUpdate\<close> returns without any effect when the updater is working or
  nothing is pending. Otherwise it installs the last pending snapshot as \<open>queue.state\<close>
  and empties the pending buffer; then, with an empty ring, it returns; with the cursor at
  the tail it runs \<open>doUpdateWork\<close>; and it throws the "unfinished update" error in the
  remaining case, and in no other: not working, work pending, ring non-empty, cursor not at
  the tail.
\<close>

theorem startUpdate_cases:
  "(isWorking s \<or> states s = [] \<longrightarrow> startUpdate f s = Done s) \<and>
   (\<not> isWorking s \<and> states s \<noteq> [] \<and> lastNode s = None \<longrightarrow>
      startUpdate f s = Done (s\<lparr> queue_state := last (states s), states := [] \<rparr>)) \<and>
   (\<not> isWorking s \<and> states s \<noteq> [] \<and> lastNode s \<noteq> None \<and> cursorNode s = lastNode s \<longrightarrow>
      startUpdate f s =
        doUpdateWork f (s\<lparr> queue_state := last (states s), states := [],
                             stateOnUpdate := stateCt s, updates := updates s + 1 \<rparr>)) \<and>
   (\<not> isWorking s \<and> states s \<noteq> [] \<and> lastNode s \<noteq> None \<and> cursorNode s \<noteq> lastNode s \<longrightarrow>
      startUpdate f s =
        Raise UnfinishedUpdate (s\<lparr> queue_state := last (states s), states := [] \<rparr>)) \<and>
   ((\<exists>s'. startUpdate f s = Raise UnfinishedUpdate s') \<longleftrightarrow>
      \<not> isWorking s \<and> states s \<noteq> [] \<and> lastNode s \<noteq> None \<and> cursorNode s \<noteq> lastNode s)"
proof -
  have "doUpdateWork f t \<noteq> Raise UnfinishedUpdate s'" for t s'
    using doUpdateWork_raise [of f t UnfinishedUpdate s'] by auto
  then show ?thesis
    by (auto simp: Let_def simp del: doUpdateWork.simps)
qed

theorem startUpdate_cases_witness:
  "(isWorking initial \<or> states initial = []) \<and> startUpdate 3 initial = Done initial \<and>
   (\<not> isWorking (initial\<lparr> states := [JNum 1, JNum 2] \<rparr>) \<and>
    states (initial\<lparr> states := [JNum 1, JNum 2] \<rparr>) \<noteq> [] \<and>
    lastNode (initial\<lparr> states := [JNum 1, JNum 2] \<rparr>) = None) \<and>
   startUpdate 3 (initial\<lparr> states := [JNum 1, JNum 2] \<rparr>) =
     Done (initial\<lparr> queue_state := JNum 2, states := [] \<rparr>) \<and>
   (\<not> isWorking (idle2\<lparr> states := [JNum 1, JNum 2] \<rparr>) \<and>
    states (idle2\<lparr> states := [JNum 1, JNum 2] \<rparr>) \<noteq> [] \<and>
    lastNode (idle2\<lparr> states := [JNum 1, JNum 2] \<rparr>) \<noteq> None \<and>
    cursorNode (idle2\<lparr> states := [JNum 1, JNum 2] \<rparr>) =
      lastNode (idle2\<lparr> states := [JNum 1, JNum 2] \<rparr>)) \<and>
   startUpdate 3 (idle2\<lparr> states := [JNum 1, JNum 2] \<rparr>) =
     doUpdateWork 3 (idle2\<lparr> queue_state := JNum 2, states := [], stateOnUpdate := 0,
                            updates := 1 \<rparr>) \<and>
   (\<not> isWorking (idle2\<lparr> states := [JNum 7], cursorNode := Some 0 \<rparr>) \<and>
    states (idle2\<lparr> states := [JNum 7], cursorNode := Some 0 \<rparr>) \<noteq> [] \<and>
    lastNode (idle2\<lparr> states := [JNum 7], cursorNode := Some 0 \<rparr>) \<noteq> None \<and>
    cursorNode (idle2\<lparr> states := [JNum 7], cursorNode := Some 0 \<rparr>) \<noteq>
      lastNode (idle2\<lparr> states := [JNum 7], cursorNode := Some 0 \<rparr>)) \<and>
   startUpdate 3 (idle2\<lparr> states := [JNum 7], cursorNode := Some 0 \<rparr>) =
     Raise UnfinishedUpdate (idle2\<lparr> queue_state := JNum 7, states := [],
                                   cursorNode := Some 0 \<rparr>)"
proof -
  have a: "isWorking initial \<or> states initial = []" by (simp add: initial_def)
  have b: "\<not> isWorking (initial\<lparr> states := [JNum 1, JNum 2] \<rparr>) \<and>
    states (initial\<lparr> states := [JNum 1, JNum 2] \<rparr>) \<noteq> [] \<and>
    lastNode (initial\<lparr> states := [JNum 1, JNum 2] \<rparr>) = None"
    by (simp add: initial_def)
  have c: "\<not> isWorking (idle2\<lparr> states := [JNum 1, JNum 2] \<rparr>) \<and>
    states (idle2\<lparr> states := [JNum 1, JNum 2] \<rparr>) \<noteq> [] \<and>
    lastNode (idle2\<lparr> states := [JNum 1, JNum 2] \<rparr>) \<noteq> None \<and>
    cursorNode (idle2\<lparr> states := [JNum 1, JNum 2] \<rparr>) =
      lastNode (idle2\<lparr> states := [JNum 1, JNum 2] \<rparr>)"
    by (simp add: idle2_fields)
  have d: "\<not> isWorking (idle2\<lparr> states := [JNum 7], cursorNode := Some 0 \<rparr>) \<and>
    states (idle2\<lparr> states := [JNum 7], cursorNode := Some 0 \<rparr>) \<noteq> [] \<and>
    lastNode (idle2\<lparr> states := [JNum 7], cursorNode := Some 0 \<rparr>) \<noteq> None \<and>
    cursorNode (idle2\<lparr> states := [JNum 7], cursorNode := Some 0 \<rparr>) \<noteq>
      lastNode (idle2\<lparr> states := [JNum 7], cursorNode := Some 0 \<rparr>)"
    by (simp add: idle2_fields)
  have a': "startUpdate 3 initial = Done initial"
    using startUpdate_cases [of initial 3] a by blast
  have b': "startUpdate 3 (initial\<lparr> states := [JNum 1, JNum 2] \<rparr>) =
     Done (initial\<lparr> states := [JNum 1, JNum 2] \<rparr>
            \<lparr> queue_state := last (states (initial\<lparr> states := [JNum 1, JNum 2] \<rparr>)),
              states := [] \<rparr>)"
    using startUpdate_cases [of "initial\<lparr> states := [JNum 1, JNum 2] \<rparr>" 3] b by blast
  have c': "startUpdate 3 (idle2\<lparr> states := [JNum 1, JNum 2] \<rparr>) =
     doUpdateWork 3 (idle2\<lparr> states := [JNum 1, JNum 2] \<rparr>
        \<lparr> queue_state := last (states (idle2\<lparr> states := [JNum 1, JNum 2] \<rparr>)), states := [],
          stateOnUpdate := stateCt (idle2\<lparr> states := [JNum 1, JNum 2] \<rparr>),
          updates := updates (idle2\<lparr> states := [JNum 1, JNum 2] \<rparr>) + 1 \<rparr>)"
    using startUpdate_cases [of "idle2\<lparr> states := [JNum 1, JNum 2] \<rparr>" 3] c by blast
  have d': "startUpdate 3 (idle2\<lparr> states := [JNum 7], cursorNode := Some 0 \<rparr>) =
     Raise UnfinishedUpdate (idle2\<lparr> states := [JNum 7], cursorNode := Some 0 \<rparr>
        \<lparr> queue_state := last (states (idle2\<lparr> states := [JNum 7], cursorNode := Some 0 \<rparr>)),
          states := [] \<rparr>)"
    using startUpdate_cases [of "idle2\<lparr> states := [JNum 7], cursorNode := Some 0 \<rparr>" 3] d
    by blast
  show ?thesis
    using a b c d a' b' c' d'
    by (simp add: idle2_fields del: startUpdate.simps doUpdateWork.simps)
qed

section \<open>A lap over live nodes\<close>

lemma runCallback_inert:
  "inert cb \<Longrightarrow> runCallback f cb s = (case thrown_by cb of [] \<Rightarrow> Done s | e # r \<Rightarrow> Raise e s)"
  by (induction cb rule: inert.induct) (simp_all del: newState.simps)

lemma thrown_by_single: "thrown_by cb = e # r \<Longrightarrow> r = []"
  by (cases cb rule: thrown_by.cases) auto

lemma stale_cong: "heap t = heap s \<Longrightarrow> queue_state t = queue_state s \<Longrightarrow> stale t = stale s"
  by (simp add: stale_def fun_eq_iff)

lemma errors_of_cong: "heap t = heap s \<Longrightarrow> refs t = refs s \<Longrightarrow> errors_of t = errors_of s"
  by (simp add: errors_of_def callback_of_def fun_eq_iff)

lemma workLoop_visit:
  assumes "cursorNode s = Some c" "nextNode (heap s c) = Some n"
    and "callback_of s n = Some cb" "stale s n \<longrightarrow> inert cb" "\<not> isWorking s"
  shows "workLoop (Suc f) s =
    (if lastNode s = Some n then Done (completeUpdate (after_lap s [n]))
     else workLoop f (after_lap s [n]))"
proof -
  from assms(1-3) have sk: "skipDead (Suc f) s = Found n s"
    by (simp add: callback_of_def)
  show ?thesis
  proof (cases "stale s n")
    case False
    then have st: "state (heap s n) = queue_state s" by (simp add: stale_def)
    have al: "after_lap s [n] = s\<lparr> cursorNode := Some n \<rparr>"
      using False by (simp add: after_lap_def)
    show ?thesis
      unfolding al using sk st assms(5)
      by (subst workLoop.simps) (auto simp: Let_def simp del: skipDead.simps workLoop.simps)
  next
    case True
    then have st: "state (heap s n) \<noteq> queue_state s" by (simp add: stale_def)
    from True assms(4) have "inert cb" by simp
    note rc = runCallback_inert [OF this]
    have al: "after_lap s [n] =
      s\<lparr> calls := calls s @ [(n, queue_state s)],
         caughtErrors := caughtErrors s @ thrown_by cb, cursorNode := Some n \<rparr>"
      using True assms(3) by (simp add: after_lap_def errors_of_def)
    show ?thesis
      unfolding al using sk st assms(3,5)
      by (subst workLoop.simps)
         (auto simp: Let_def rc caught_def callback_of_def
               simp del: skipDead.simps workLoop.simps split: list.splits
               dest: thrown_by_single)
  qed
qed

lemma after_lap_Cons:
  "rest \<noteq> [] \<Longrightarrow> after_lap (after_lap s [n]) rest = after_lap s (n # rest)"
proof -
  have 1: "stale (after_lap s [n]) = stale s"
    by (rule stale_cong) (simp_all add: after_lap_def)
  have 2: "errors_of (after_lap s [n]) = errors_of s"
    by (rule errors_of_cong) (simp_all add: after_lap_def)
  assume "rest \<noteq> []"
  then show ?thesis
    unfolding after_lap_def [of "after_lap s [n]" rest] 1 2
    by (simp add: after_lap_def)
qed

lemma workLoop_lap:
  assumes "chain (heap s) (c # ns)" "ns \<noteq> []" "distinct ns"
    and "cursorNode s = Some c" "lastNode s = Some (last ns)" "\<not> isWorking s"
    and "\<forall>n\<in>set ns. \<exists>cb. callback_of s n = Some cb \<and> (stale s n \<longrightarrow> inert cb)"
    and "length ns \<le> f"
  shows "workLoop f s = Done (completeUpdate (after_lap s ns))"
  using assms
proof (induction ns arbitrary: s c f)
  case Nil
  then show ?case by simp
next
  case (Cons n rest)
  from Cons.prems(8) obtain f' where f: "f = Suc f'" "length rest \<le> f'"
    by (cases f) auto
  from Cons.prems(1) have nx: "nextNode (heap s c) = Some n" "chain (heap s) (n # rest)"
    by simp_all
  from Cons.prems(7) obtain cb where cb: "callback_of s n = Some cb" "stale s n \<longrightarrow> inert cb"
    by auto
  note step = workLoop_visit [OF Cons.prems(4) nx(1) cb Cons.prems(6), of f']
  show ?case
  proof (cases "rest = []")
    case True
    with step Cons.prems(5) f show ?thesis by simp
  next
    case False
    with Cons.prems(3,5) have ne: "lastNode s \<noteq> Some n" by auto
    let ?t = "after_lap s [n]"
    have t: "heap ?t = heap s" "cursorNode ?t = Some n" "lastNode ?t = lastNode s"
      "isWorking ?t = isWorking s" "refs ?t = refs s" "queue_state ?t = queue_state s"
      by (simp_all add: after_lap_def)
    have cbs: "\<forall>m\<in>set rest. \<exists>cb. callback_of ?t m = Some cb \<and> (stale ?t m \<longrightarrow> inert cb)"
      using Cons.prems(7) stale_cong [OF t(1) t(6)] t
      by (simp add: callback_of_def)
    have "workLoop f' ?t = Done (completeUpdate (after_lap ?t rest))"
      using Cons.IH [of ?t n f'] nx(2) False Cons.prems(3,5,6) t cbs f(2) by simp
    with step ne f False show ?thesis by (simp add: after_lap_Cons)
  qed
qed

lemma drainErrors_truthy:
  "caughtErrors s = es \<Longrightarrow> \<forall>e\<in>set es. truthy e \<Longrightarrow>
   drainErrors k s =
     s\<lparr> caughtErrors := [], evars := (evars s)(k := JUndefined),
        tasks := tasks s @ replicate (length es) (Rethrow k) \<rparr>"
proof (induction es arbitrary: s rule: rev_induct)
  case Nil
  then show ?case by (subst drainErrors.simps) simp
next
  case (snoc e es)
  let ?t = "s\<lparr> caughtErrors := es, evars := (evars s)(k := e),
               tasks := tasks s @ [Rethrow k] \<rparr>"
  have "drainErrors k ?t =
      ?t\<lparr> caughtErrors := [], evars := (evars ?t)(k := JUndefined),
         tasks := tasks ?t @ replicate (length es) (Rethrow k) \<rparr>"
    using snoc.prems by (intro snoc.IH) simp_all
  with snoc.prems show ?case
    by (subst drainErrors.simps) (simp add: Let_def replicate_append_same)
qed

lemma drainErrors_calls:
  "calls (drainErrors k s) = calls s \<and> queue_state (drainErrors k s) = queue_state s \<and>
   states (drainErrors k s) = states s \<and> updates (drainErrors k s) = updates s \<and>
   isWorking (drainErrors k s) = isWorking s \<and> lastNode (drainErrors k s) = lastNode s \<and>
   cursorNode (drainErrors k s) = cursorNode s \<and> refs (drainErrors k s) = refs s"
proof (induction k s rule: drainErrors.induct)
  case (1 k s)
  show ?case
  proof (cases "caughtErrors s = [] \<or> \<not> truthy (last (caughtErrors s))")
    case True
    then show ?thesis by (subst (1 2 3 4 5 6 7 8) drainErrors.simps) (auto simp: Let_def)
  next
    case False
    with 1 [OF _ refl refl] show ?thesis
      by (subst (1 2 3 4 5 6 7 8) drainErrors.simps) (simp add: Let_def)
  qed
qed



lemma ring_lap_start:
  assumes "ring s ns" "ns \<noteq> []" "cursorNode s = lastNode s"
  shows "chain (heap s) (last ns # ns)" "distinct ns" "cursorNode s = Some (last ns)"
    "lastNode s = Some (last ns)"
  using assms by (simp_all add: ring_def)



section \<open>Claims about a pass\<close>



lemma pass_keeps_stamps:
  "n < nodeCount s \<Longrightarrow> doUpdateWork f s = Done s' \<Longrightarrow> state (heap s' n) = state (heap s n)"
  using frame_all(2) [of s f] by (simp add: res_frame_def frame_def del: doUpdateWork.simps)

lemma lap_errors_rethrown:
  assumes "ring s ns" "ns \<noteq> []" "cursorNode s = lastNode s" "\<not> isWorking s"
    and "\<forall>n\<in>set ns. \<exists>cb. callback_of s n = Some cb \<and> inert cb"
    and "caughtErrors s = []"
    and "\<forall>n\<in>set ns. \<forall>e\<in>set (errors_of s n). truthy e"
  shows "\<exists>s'. doUpdateWork (length ns) s = Done s' \<and> caughtErrors s' = [] \<and>
     calls s' = calls s @ map (\<lambda>n. (n, queue_state s)) (filter (stale s) ns) \<and>
     tasks s' = tasks s @
        replicate (length (concat (map (errors_of s) (filter (stale s) ns))))
          (Rethrow (evarCt s)) @ [StartUpdate] \<and>
     evars s' (evarCt s) = JUndefined"
proof -
  note st = ring_lap_start [OF assms(1-3)]
  from assms(5)
  have cbs: "\<forall>n\<in>set ns. \<exists>cb. callback_of s n = Some cb \<and> (stale s n \<longrightarrow> inert cb)"
    by auto
  have wl: "workLoop (length ns) s = Done (completeUpdate (after_lap s ns))"
    using st(1) assms(2) st(2,3,4) assms(4) cbs by (rule workLoop_lap) simp
  let ?a = "after_lap s ns"
  let ?k = "evarCt s"
  let ?b = "?a\<lparr> evarCt := ?k + 1, evars := (evars ?a)(?k := JUndefined) \<rparr>"
  have ce: "caughtErrors ?b = concat (map (errors_of s) (filter (stale s) ns))"
    using assms(6) by (simp add: after_lap_def)
  have tr: "\<forall>e\<in>set (concat (map (errors_of s) (filter (stale s) ns))). truthy e"
    using assms(7) by auto
  have d: "drainErrors ?k ?b = ?b\<lparr> caughtErrors := [], evars := (evars ?b)(?k := JUndefined),
             tasks := tasks ?b @
               replicate (length (concat (map (errors_of s) (filter (stale s) ns))))
                 (Rethrow ?k) \<rparr>"
    using ce tr by (rule drainErrors_truthy)
  have k: "evarCt ?a = ?k" by (simp add: after_lap_def)
  have "completeUpdate ?a = ?b\<lparr> caughtErrors := [], evars := (evars ?b)(?k := JUndefined),
             tasks := tasks ?b @
               replicate (length (concat (map (errors_of s) (filter (stale s) ns))))
                 (Rethrow ?k) @ [StartUpdate] \<rparr>"
    unfolding completeUpdate_def Let_def k d using assms(4)
    by (simp add: checkForNextUpdate_def after_lap_def)
  with wl assms(4) st(4) show ?thesis
    by (simp add: after_lap_def del: workLoop.simps)
qed


text \<open>
  Claim C1 at a concrete input: two live subscribers created while \<open>queue.state\<close> is
  \<open>null\<close>, callbacks that return normally, then \<open>newState(1)\<close>. The pass runs to
  completion (cursor on the tail, \<open>startUpdate\<close> scheduled) and calls both callbacks, but
  both stamps are still \<open>null\<close> while \<open>queue.state\<close> is \<open>1\<close>. No entry point ever
  writes the stamp of an existing node (\<open>pass_keeps_stamps\<close>).
\<close>

theorem pass_leaves_stamps_behind:
  "on_done calls (newState 3 (JNum 1) idle2) = Some [(0, JNum 1), (1, JNum 1)] \<and>
   on_done queue_state (newState 3 (JNum 1) idle2) = Some (JNum 1) \<and>
   on_done (stamps [0, 1]) (newState 3 (JNum 1) idle2) = Some [JNull, JNull] \<and>
   on_done cursorNode (newState 3 (JNum 1) idle2) = Some (Some 1) \<and>
   on_done lastNode (newState 3 (JNum 1) idle2) = Some (Some 1) \<and>
   on_done tasks (newState 3 (JNum 1) idle2) = Some [StartUpdate]"
  by code_simp

text \<open>
  Claim C2 at a concrete input: the callback of the tail node calls \<open>updating\<close>. The pass
  suspends with the cursor on the tail and one continuation scheduled. The continuation
  clears the flag and enters the \<open>do ... while\<close> body before any test of the cursor
  against the tail, so it walks the ring a second time: both nodes are called again and
  the pass suspends again instead of completing.
\<close>

theorem continuation_at_tail_laps_again:
  "on_done calls (newState 3 (JNum 1) suspending2) = Some [(0, JNum 1), (1, JNum 1)] \<and>
   on_done microtasks (newState 3 (JNum 1) suspending2) = Some [ContinueUpdate] \<and>
   on_done cursorNode (newState 3 (JNum 1) suspending2) = Some (Some 1) \<and>
   on_done lastNode (newState 3 (JNum 1) suspending2) = Some (Some 1) \<and>
   on_done calls (and_then (newState 3 (JNum 1) suspending2) (continueUpdate 3)) =
     Some [(0, JNum 1), (1, JNum 1), (0, JNum 1), (1, JNum 1)] \<and>
   on_done microtasks (and_then (newState 3 (JNum 1) suspending2) (continueUpdate 3)) =
     Some [ContinueUpdate, ContinueUpdate] \<and>
   on_done tasks (and_then (newState 3 (JNum 1) suspending2) (continueUpdate 3)) = Some []"
  by code_simp

text \<open>
  Claim C4 at two concrete inputs. In \<open>throwing1\<close> the first callback throws an object
  and the second returns: both run, the object is buffered and one closure is scheduled
  for it, but the closure shares the variable \<open>e\<close> with the loop, which has ended with
  \<open>e\<close> undefined: run by the host, the closure throws \<open>undefined\<close>, not the object. In
  \<open>throwing2\<close> the second callback throws \<open>0\<close>: \<open>completeUpdate\<close> pops \<open>0\<close> first, takes
  it for the end of the buffer and stops, so nothing is scheduled, the \<open>0\<close> is gone and
  the object stays in the buffer. The general shape is \<open>lap_errors_rethrown\<close>: one closure
  per failing invocation when every thrown value is truthy, each throwing \<open>undefined\<close>.
\<close>

theorem rethrown_error_is_lost:
  "on_done calls (newState 3 (JNum 1) throwing1) = Some [(0, JNum 1), (1, JNum 1)] \<and>
   on_done caughtErrors (newState 3 (JNum 1) throwing1) = Some [] \<and>
   on_done tasks (newState 3 (JNum 1) throwing1) = Some [Rethrow 0, StartUpdate] \<and>
   on_raise (and_then (newState 3 (JNum 1) throwing1) (runTask 3 (Rethrow 0))) =
     Some JUndefined \<and>
   on_done calls (newState 3 (JNum 1) throwing2) = Some [(0, JNum 1), (1, JNum 1)] \<and>
   on_done cursorNode (newState 3 (JNum 1) throwing2) = Some (Some 1) \<and>
   on_done lastNode (newState 3 (JNum 1) throwing2) = Some (Some 1) \<and>
   on_done tasks (newState 3 (JNum 1) throwing2) = Some [StartUpdate] \<and>
   on_done caughtErrors (newState 3 (JNum 1) throwing2) = Some [JObj 7]"
  by code_simp

section \<open>Snapshots that reach callbacks\<close>

lemma allowed_ctl: "ctl s s' \<Longrightarrow> allowed s' = allowed s"
  by (simp add: ctl_def allowed_def submitted_def)

lemma confined_refl: "allowed s \<subseteq> B \<Longrightarrow> confined B s s"
  by (simp add: confined_def)

lemma confined_ctl: "ctl s s' \<Longrightarrow> allowed s \<subseteq> B \<Longrightarrow> confined B s s'"
  using allowed_ctl [of s s'] by (simp add: confined_def ctl_def)

lemma queue_state_allowed: "queue_state s \<in> allowed s"
  by (simp add: allowed_def)

lemma confined_trans:
  assumes "confined B s t" "confined B t u"
  shows "confined B s u"
proof -
  from assms(1) have a1: "allowed t \<subseteq> B"
    and e1: "\<exists>xs. calls t = calls s @ xs \<and> snd ` set xs \<subseteq> B"
    unfolding confined_def by blast+
  from assms(2) have a2: "allowed u \<subseteq> B"
    and e2: "\<exists>ys. calls u = calls t @ ys \<and> snd ` set ys \<subseteq> B"
    unfolding confined_def by blast+
  from e1 obtain xs where c1: "calls t = calls s @ xs" "snd ` set xs \<subseteq> B" by blast
  from e2 obtain ys where c2: "calls u = calls t @ ys" "snd ` set ys \<subseteq> B" by blast
  note c = c1 c2 and a = a1 a2
  have 1: "\<exists>zs. calls u = calls s @ zs \<and> snd ` set zs \<subseteq> B"
    using c by (intro exI [of _ "xs @ ys"]) auto
  have 2: "updates u = updates s \<and> states u = []" if q: "B \<subseteq> {queue_state s}" "states s = []"
  proof -
    from assms(1) q have t: "updates t = updates s" "states t = []" by (simp_all add: confined_def)
    from a(1) queue_state_allowed [of t] q(1) have "queue_state t = queue_state s" by auto
    with q(1) t(2) assms(2) have "updates u = updates t \<and> states u = []"
      by (simp add: confined_def)
    with t show ?thesis by simp
  qed
  from a(2) 1 2 show ?thesis by (simp add: confined_def)
qed

lemma res_confined_trans: "confined B s t \<Longrightarrow> res_confined B t r \<Longrightarrow> res_confined B s r"
  by (auto simp: res_confined_def split: res.splits intro: confined_trans)

lemma confined_allowed: "confined B s t \<Longrightarrow> allowed t \<subseteq> B"
  by (simp add: confined_def)

lemma ctl_refl: "ctl s s"
  by (simp add: ctl_def)

lemma ctl_trans: "ctl s t \<Longrightarrow> ctl t u \<Longrightarrow> ctl s u"
  by (simp add: ctl_def)

lemma ctl_completeUpdate: "ctl s (completeUpdate s)"
  using drainErrors_calls
    [of "evarCt s" "s\<lparr> evarCt := evarCt s + 1, evars := (evars s)(evarCt s := JUndefined) \<rparr>"]
  by (simp add: ctl_def completeUpdate_def checkForNextUpdate_def Let_def)

lemma ctl_removeCurrentNode:
  "removeCurrentNode s = Done s' \<or> removeCurrentNode s = Raise e s' \<Longrightarrow> ctl s s'"
  by (auto simp: ctl_def removeCurrentNode_def Let_def split: option.splits if_splits)

lemma ctl_skipDead:
  "(case skipDead f s of Found n s' \<Rightarrow> ctl s s' | Emptied s' \<Rightarrow> ctl s s'
    | SkipRaise e s' \<Rightarrow> ctl s s' | SkipDiverge \<Rightarrow> True)"
proof (induction f s rule: skipDead.induct)
  case (1 s)
  then show ?case by simp
next
  case (2 f s)
  show ?case
  proof (cases "cursorNode s")
    case None
    then show ?thesis by (simp add: ctl_refl)
  next
    case (Some c)
    note c = this
    show ?thesis
    proof (cases "nextNode (heap s c)")
      case None
      with c show ?thesis by (simp add: ctl_refl)
    next
      case (Some n)
      note n = this
      show ?thesis
      proof (cases "refs s (updater (heap s n)) = None")
        case False
        with c n show ?thesis by (auto simp add: ctl_refl)
      next
        case True
        show ?thesis
        proof (cases "removeCurrentNode s")
          case (Done s1)
          then have f1: "ctl s s1" using ctl_removeCurrentNode by blast
          show ?thesis
          proof (cases "lastNode s1 = None")
            case True
            with c n \<open>refs s (updater (heap s n)) = None\<close> Done f1 show ?thesis by simp
          next
            case False
            from 2 [OF c n True Done False] f1
            have "case skipDead f s1 of Found n s' \<Rightarrow> ctl s s' | Emptied s' \<Rightarrow> ctl s s'
                  | SkipRaise e s' \<Rightarrow> ctl s s' | SkipDiverge \<Rightarrow> True"
              by (auto split: skipped.splits intro: ctl_trans)
            with c n True Done False f1 show ?thesis by auto
          qed
        next
          case (Raise e s1)
          then have f1: "ctl s s1" using ctl_removeCurrentNode by blast
          with c n True Raise show ?thesis by simp
        next
          case Diverge
          with c n True show ?thesis by simp
        qed
      qed
    qed
  qed
qed

lemma ctl_create: "ctl s (snd (create u s))"
  by (auto simp: ctl_def create_def appendNodeToQueue_def Let_def split: option.splits)

lemma res_confined_caught: "res_confined B s r \<Longrightarrow> res_confined B s (caught r)"
proof (cases r)
  case (Raise e s')
  assume "res_confined B s r"
  with Raise have c: "confined B s s'" by (simp add: res_confined_def)
  have "ctl s' (s'\<lparr> caughtErrors := caughtErrors s' @ [e] \<rparr>)" by (simp add: ctl_def)
  from this confined_allowed [OF c]
  have "confined B s' (s'\<lparr> caughtErrors := caughtErrors s' @ [e] \<rparr>)" by (rule confined_ctl)
  with c have "confined B s (s'\<lparr> caughtErrors := caughtErrors s' @ [e] \<rparr>)"
    by (rule confined_trans)
  with Raise show ?thesis by (simp add: caught_def res_confined_def)
qed (simp_all add: caught_def)


lemma subm_in_submitted: "refs s u = Some cb \<Longrightarrow> subm cb \<subseteq> allowed s"
  by (auto simp: allowed_def submitted_def)

lemma confined_log:
  "allowed s \<subseteq> B \<Longrightarrow> confined B s (s\<lparr> calls := calls s @ [(n, queue_state s)] \<rparr>)"
  by (auto simp: confined_def allowed_def submitted_def)

lemma confined_install:
  "allowed s \<subseteq> B \<Longrightarrow> states s \<noteq> [] \<Longrightarrow>
   confined B s (s\<lparr> queue_state := last (states s), states := [] \<rparr>) \<and>
   confined B s (s\<lparr> queue_state := last (states s), states := [],
                    stateOnUpdate := k, updates := m \<rparr>)"
  by (auto simp: confined_def allowed_def submitted_def)

lemma confined_push:
  "allowed s \<subseteq> B \<Longrightarrow> v \<in> B \<Longrightarrow> queue_state s \<noteq> v \<Longrightarrow>
   confined B s (s\<lparr> stateCt := k, states := states s @ [v] \<rparr>)"
  by (auto simp: confined_def allowed_def submitted_def)

lemma confined_clear:
  "allowed s \<subseteq> B \<Longrightarrow> confined B s (s\<lparr> refs := (refs s)(u := None) \<rparr>)"
  by (auto simp: confined_def allowed_def submitted_def split: if_splits)

lemma confined_all:
  "allowed s \<subseteq> B \<Longrightarrow> res_confined B s (workLoop f s)"
  "allowed s \<subseteq> B \<Longrightarrow> res_confined B s (doUpdateWork f s)"
  "allowed s \<subseteq> B \<Longrightarrow> res_confined B s (startUpdate f s)"
  "allowed s \<subseteq> B \<Longrightarrow> v \<in> B \<Longrightarrow> res_confined B s (newState f v s)"
  "allowed s \<subseteq> B \<Longrightarrow> subm cb \<subseteq> B \<Longrightarrow> res_confined B s (runCallback f cb s)"
proof (induction f s and f s and f s and f v s and f cb s
       rule: workLoop_doUpdateWork_startUpdate_newState_runCallback.induct)
  case (1 s)
  then show ?case by (simp add: res_confined_def)
next
  case (2 f s)
  note IH = "2.IH" and B = "2.prems"
  show ?case
  proof (cases "skipDead (Suc f) s")
    case SkipDiverge
    then show ?thesis by (simp add: res_confined_def del: skipDead.simps)
  next
    case (SkipRaise e s1)
    with ctl_skipDead [where f = "Suc f" and s = s] have "ctl s s1" by (simp del: skipDead.simps)
    with SkipRaise B show ?thesis
      by (simp add: res_confined_def confined_ctl del: skipDead.simps)
  next
    case (Emptied s1)
    with ctl_skipDead [where f = "Suc f" and s = s] have "ctl s s1" by (simp del: skipDead.simps)
    then have "ctl s (completeUpdate s1)" using ctl_completeUpdate by (rule ctl_trans)
    with Emptied B show ?thesis
      by (simp add: res_confined_def confined_ctl del: skipDead.simps)
  next
    case (Found n s1)
    with ctl_skipDead [where f = "Suc f" and s = s] have "ctl s s1" by (simp del: skipDead.simps)
    with B have f1: "confined B s s1" by (simp add: confined_ctl)
    then have B1: "allowed s1 \<subseteq> B" by (rule confined_allowed)
    define r where "r = (if state (heap s1 n) = queue_state s1 then Done s1
                 else caught (case refs s1 (updater (heap s1 n)) of
                                None \<Rightarrow> Raise TypeError s1
                              | Some cb \<Rightarrow>
                                  runCallback f cb
                                    (s1\<lparr> calls := calls s1 @ [(n, queue_state s1)] \<rparr>)))"
    have wl: "workLoop (Suc f) s =
        (case r of Diverge \<Rightarrow> Diverge | Raise e s2 \<Rightarrow> Raise e s2
         | Done s2 \<Rightarrow>
               (let s3 = s2\<lparr> cursorNode := Some n \<rparr>
                in if isWorking s3
                   then Done (s3\<lparr> microtasks := microtasks s3 @ [ContinueUpdate] \<rparr>)
                   else if cursorNode s3 \<noteq> lastNode s3 then workLoop f s3
                   else Done (completeUpdate s3)))"
      using Found by (simp add: r_def del: skipDead.simps)
    have r1: "res_confined B s1 r"
    proof (cases "state (heap s1 n) = queue_state s1")
      case True
      with B1 show ?thesis by (simp add: r_def res_confined_def confined_refl)
    next
      case False
      note stale = this
      show ?thesis
      proof (cases "refs s1 (updater (heap s1 n))")
        case None
        have "res_confined B s1 (caught (Raise TypeError s1))"
          using B1 by (intro res_confined_caught) (simp add: res_confined_def confined_refl)
        with stale None show ?thesis by (simp add: r_def)
      next
        case (Some cb)
        let ?s = "s1\<lparr> calls := calls s1 @ [(n, queue_state s1)] \<rparr>"
        have l: "confined B s1 ?s" using B1 by (rule confined_log)
        have sb: "subm cb \<subseteq> B" using subm_in_submitted [OF Some] B1 by blast
        have "res_confined B ?s (runCallback f cb ?s)"
          by (rule IH(1) [OF Found stale Some confined_allowed [OF l] sb])
        with l have "res_confined B s1 (runCallback f cb ?s)" by (rule res_confined_trans)
        then have "res_confined B s1 (caught (runCallback f cb ?s))" by (rule res_confined_caught)
        with stale Some show ?thesis by (simp add: r_def)
      qed
    qed
    show ?thesis
    proof (cases r)
      case Diverge
      with wl show ?thesis by (simp add: res_confined_def)
    next
      case (Raise e s2)
      with wl r1 f1 show ?thesis by (auto simp: res_confined_def intro: confined_trans)
    next
      case (Done s2)
      let ?s3 = "s2\<lparr> cursorNode := Some n \<rparr>"
      from Done r1 f1 have f2: "confined B s s2"
        by (auto simp: res_confined_def intro: confined_trans)
      have "ctl s2 ?s3" by (simp add: ctl_def)
      then have "confined B s2 ?s3" using confined_allowed [OF f2] by (rule confined_ctl)
      with f2 have f3: "confined B s ?s3" by (rule confined_trans)
      note B3 = confined_allowed [OF f3]
      show ?thesis
      proof (cases "isWorking ?s3")
        case True
        have "ctl ?s3 (?s3\<lparr> microtasks := microtasks ?s3 @ [ContinueUpdate] \<rparr>)"
          by (simp add: ctl_def)
        then have "confined B ?s3 (?s3\<lparr> microtasks := microtasks ?s3 @ [ContinueUpdate] \<rparr>)"
          using B3 by (rule confined_ctl)
        with f3 have "confined B s (?s3\<lparr> microtasks := microtasks ?s3 @ [ContinueUpdate] \<rparr>)"
          by (rule confined_trans)
        with wl Done True show ?thesis by (simp add: res_confined_def Let_def)
      next
        case False
        note nw = this
        show ?thesis
        proof (cases "cursorNode ?s3 \<noteq> lastNode ?s3")
          case True
          have "res_confined B ?s3 (workLoop f ?s3)"
            using IH(2) [OF Found _ refl nw True B3] Done by (simp add: r_def)
          with f3 have "res_confined B s (workLoop f ?s3)" by (rule res_confined_trans)
          with wl Done nw True show ?thesis by (simp add: Let_def)
        next
          case False
          have "confined B ?s3 (completeUpdate ?s3)"
            using ctl_completeUpdate B3 by (rule confined_ctl)
          with f3 have "confined B s (completeUpdate ?s3)" by (rule confined_trans)
          with wl Done nw False show ?thesis by (simp add: Let_def res_confined_def)
        qed
      qed
    qed
  qed
next
  case (3 f s)
  note IH = "3.IH" and B = "3.prems"
  show ?case
  proof (cases "isWorking s")
    case True
    with B show ?thesis by (simp add: res_confined_def confined_refl)
  next
    case False
    note nw = this
    show ?thesis
    proof (cases "lastNode s = None")
      case True
      have "confined B s (completeUpdate s)" using ctl_completeUpdate B by (rule confined_ctl)
      with nw True show ?thesis by (simp add: res_confined_def)
    next
      case False
      with IH [OF nw False B] nw show ?thesis by auto
    qed
  qed
next
  case (4 f s)
  note IH = "4.IH" and B = "4.prems"
  let ?s2 = "s\<lparr> queue_state := last (states s), states := [] \<rparr>"
  let ?s3 = "?s2\<lparr> stateOnUpdate := stateCt ?s2, updates := updates ?s2 + 1 \<rparr>"
  show ?case
  proof (cases "\<not> isWorking s \<and> states s \<noteq> []")
    case False
    with B show ?thesis by (auto simp: res_confined_def confined_refl)
  next
    case True
    note go = this
    from confined_install [where k = "stateCt s" and m = "updates s + 1", OF B] go
    have f2: "confined B s ?s2" "confined B s ?s3" by simp_all
    show ?thesis
    proof (cases "lastNode s \<noteq> None \<and> cursorNode s = lastNode s")
      case True
      have "res_confined B ?s3 (doUpdateWork f ?s3)"
        using IH [OF _ _ refl refl _ _ confined_allowed [OF f2(2)]] go True
        by (auto simp del: doUpdateWork.simps)
      with f2(2) have "res_confined B s (doUpdateWork f ?s3)" by (rule res_confined_trans)
      with go True show ?thesis by (auto simp: Let_def simp del: doUpdateWork.simps)
    next
      case False
      with go f2 show ?thesis
        by (auto simp: Let_def res_confined_def simp del: doUpdateWork.simps)
    qed
  qed
next
  case (5 f v s)
  note IH = "5.IH" and B = "5.prems"
  let ?s1 = "s\<lparr> stateCt := stateCt s + 1, states := states s @ [v] \<rparr>"
  show ?case
  proof (cases "queue_state s \<noteq> v")
    case True
    have p: "confined B s ?s1" using B True by (rule confined_push)
    from IH [OF True confined_allowed [OF p]] p
    have "res_confined B s (startUpdate f ?s1)" by (rule res_confined_trans [rotated])
    with True show ?thesis by (simp del: startUpdate.simps)
  next
    case False
    with B show ?thesis by (simp add: res_confined_def confined_refl)
  qed
next
  case (6 f s)
  then show ?case by (simp add: res_confined_def confined_refl)
next
  case (7 f a as s)
  note IH = "7.IH" and B = "7.prems"
  define r where "r = (case a of
              CallUpdating n \<Rightarrow> Done (s\<lparr> isWorking := True, workNode := Some n \<rparr>)
            | CallNewState v \<Rightarrow> newState f v s
            | CallCreate u \<Rightarrow> Done (snd (create u s))
            | ClearCurrent u \<Rightarrow> Done (s\<lparr> refs := (refs s)(u := None) \<rparr>)
            | Throw v \<Rightarrow> Raise v s)"
  have rc: "runCallback f (a # as) s = (case r of Done s1 \<Rightarrow> runCallback f as s1 | r \<Rightarrow> r)"
    by (simp add: r_def del: newState.simps)
  from B(2) have sb: "subm as \<subseteq> B" by (auto simp: subm_def)
  have r1: "res_confined B s r"
  proof (cases a)
    case (CallUpdating n)
    have "ctl s (s\<lparr> isWorking := True, workNode := Some n \<rparr>)" by (simp add: ctl_def)
    then have "confined B s (s\<lparr> isWorking := True, workNode := Some n \<rparr>)"
      using B(1) by (rule confined_ctl)
    with CallUpdating show ?thesis by (simp add: r_def res_confined_def)
  next
    case (CallNewState v)
    with B(2) have "v \<in> B" by (auto simp: subm_def)
    with IH(1) [OF CallNewState B(1)] CallNewState show ?thesis
      by (simp add: r_def del: newState.simps)
  next
    case (CallCreate u)
    have "confined B s (snd (create u s))" using ctl_create B(1) by (rule confined_ctl)
    with CallCreate show ?thesis by (simp add: r_def res_confined_def)
  next
    case (ClearCurrent u)
    with confined_clear [OF B(1), of u] show ?thesis by (simp add: r_def res_confined_def)
  next
    case (Throw v)
    with B(1) show ?thesis by (simp add: r_def res_confined_def confined_refl)
  qed
  show ?case
  proof (cases r)
    case (Done s1)
    with r1 have c1: "confined B s s1" by (simp add: res_confined_def)
    from IH(2) [OF _ confined_allowed [OF c1] sb] Done
    have "res_confined B s1 (runCallback f as s1)" by (simp add: r_def)
    with c1 have "res_confined B s (runCallback f as s1)" by (rule res_confined_trans)
    with rc Done show ?thesis by simp
  next
    case (Raise e s1)
    with rc r1 show ?thesis by simp
  next
    case Diverge
    with rc show ?thesis by (simp add: res_confined_def)
  qed
qed

lemma res_state_cases:
  "res_state r = Some s' \<longleftrightarrow> r = Done s' \<or> (\<exists>e. r = Raise e s')"
  by (cases r) (auto simp: res_state_def)

lemma confined_result:
  "res_confined B s r \<Longrightarrow> res_state r = Some s' \<Longrightarrow> confined B s s'"
  by (cases r) (auto simp: res_confined_def res_state_def)


lemma newState_not_working:
  assumes "\<not> isWorking s" "v \<noteq> queue_state s"
  shows "newState f v s =
     (if lastNode s = None
      then Done (s\<lparr> stateCt := stateCt s + 1, queue_state := v, states := [] \<rparr>)
      else if cursorNode s \<noteq> lastNode s
      then Raise UnfinishedUpdate (s\<lparr> stateCt := stateCt s + 1, queue_state := v, states := [] \<rparr>)
      else doUpdateWork f (s\<lparr> stateCt := stateCt s + 1, queue_state := v, states := [],
                              stateOnUpdate := stateCt s + 1, updates := updates s + 1 \<rparr>))"
  using assms by (auto simp: Let_def simp del: doUpdateWork.simps)

lemma startUpdate_pending:
  assumes "\<not> isWorking t" "states t = ps @ [v]"
  shows "startUpdate f t =
     (if lastNode t = None then Done (t\<lparr> queue_state := v, states := [] \<rparr>)
      else if cursorNode t \<noteq> lastNode t
      then Raise UnfinishedUpdate (t\<lparr> queue_state := v, states := [] \<rparr>)
      else doUpdateWork f (t\<lparr> queue_state := v, states := [], stateOnUpdate := stateCt t,
                              updates := updates t + 1 \<rparr>))"
  using assms by (auto simp: Let_def simp del: doUpdateWork.simps)

text \<open>
  What a deferred start leaves behind: with \<open>B\<close> a set that holds the installed snapshot
  and whatever the callbacks submit, the result is confined to \<open>B\<close> relative to the state
  in which the pass begins.
\<close>

lemma startUpdate_confined:
  assumes nw: "\<not> isWorking t" and st: "states t = ps @ [v]"
    and B: "insert v (submitted t) \<subseteq> B" and r: "res_state (startUpdate f t) = Some t'"
  shows "allowed t' \<subseteq> B" "\<exists>xs. calls t' = calls t @ xs \<and> snd ` set xs \<subseteq> B"
    "B \<subseteq> {v} \<Longrightarrow> states t' = [] \<and>
       updates t' = (if lastNode t \<noteq> None \<and> cursorNode t = lastNode t then updates t + 1
                     else updates t)"
proof -
  let ?t2 = "t\<lparr> queue_state := v, states := [] \<rparr>"
  let ?t3 = "t\<lparr> queue_state := v, states := [], stateOnUpdate := stateCt t,
                updates := updates t + 1 \<rparr>"
  have a: "allowed ?t2 \<subseteq> B" "allowed ?t3 \<subseteq> B"
    using B by (auto simp: allowed_def submitted_def)
  note su = startUpdate_pending [OF nw st, of f]
  have c: "(confined B ?t2 t' \<and> \<not> (lastNode t \<noteq> None \<and> cursorNode t = lastNode t)) \<or>
           (confined B ?t3 t' \<and> lastNode t \<noteq> None \<and> cursorNode t = lastNode t)"
  proof (cases "lastNode t \<noteq> None \<and> cursorNode t = lastNode t")
    case True
    with su r have "res_state (doUpdateWork f ?t3) = Some t'" by (auto simp del: doUpdateWork.simps)
    with confined_all(2) [OF a(2)] have "confined B ?t3 t'" by (rule confined_result)
    with True show ?thesis by simp
  next
    case False
    with su r have "t' = ?t2" by (auto simp: res_state_def split: if_splits)
    with a(1) False show ?thesis by (auto simp: confined_refl)
  qed
  then show "allowed t' \<subseteq> B" by (auto simp: confined_def)
  from c show "\<exists>xs. calls t' = calls t @ xs \<and> snd ` set xs \<subseteq> B"
    by (auto simp: confined_def)
  assume "B \<subseteq> {v}"
  with c show "states t' = [] \<and>
       updates t' = (if lastNode t \<noteq> None \<and> cursorNode t = lastNode t then updates t + 1
                     else updates t)"
    by (auto simp: confined_def)
qed





section \<open>Claims about coalescing and resubmission\<close>



text \<open>
  Claim C10, as stated, at a concrete input. After a completed pass for the snapshot \<open>0\<close>,
  which is then \<open>queue.state\<close>, the snapshot \<open>1\<close> is submitted twice on the idle updater.
  The first submission is installed and run at once, the second finds \<open>queue.state\<close> equal
  to it and does nothing: the pending buffer is empty after both, not \<open>[1, 1]\<close>.
\<close>

theorem resubmission_when_idle_not_buffered:
  "on_done queue_state (newState 3 (JNum 0) idle2) = Some (JNum 0) \<and>
   on_done states (newState 3 (JNum 0) idle2) = Some [] \<and>
   on_done updates (newState 3 (JNum 0) idle2) = Some 1 \<and>
   on_done queue_state (and_then (newState 3 (JNum 0) idle2) (newState 3 (JNum 1))) =
     Some (JNum 1) \<and>
   on_done states (and_then (newState 3 (JNum 0) idle2) (newState 3 (JNum 1))) = Some [] \<and>
   on_done updates (and_then (newState 3 (JNum 0) idle2) (newState 3 (JNum 1))) = Some 2 \<and>
   on_done states
     (and_then (and_then (newState 3 (JNum 0) idle2) (newState 3 (JNum 1)))
        (newState 3 (JNum 1))) = Some [] \<and>
   on_done updates
     (and_then (and_then (newState 3 (JNum 0) idle2) (newState 3 (JNum 1)))
        (newState 3 (JNum 1))) = Some 2 \<and>
   on_done stateCt
     (and_then (and_then (newState 3 (JNum 0) idle2) (newState 3 (JNum 1)))
        (newState 3 (JNum 1))) = Some 2"
  by code_simp

text \<open>
  Claim C10, amended. \<open>newState v\<close> returns the updater unchanged exactly when \<open>v\<close> is
  \<open>queue.state\<close>, the snapshot installed by the last \<open>startUpdate\<close> that got past its
  guards. Otherwise it counts the submission, appends \<open>v\<close> to the pending buffer and calls
  \<open>startUpdate\<close>: with the working flag set \<open>v\<close> stays in the buffer; with the flag clear
  \<open>v\<close> is installed at once and the buffer emptied, followed by the return, the throw or
  the pass of \<open>startUpdate\<close>. So the comparison is with the installed snapshot and not with
  what was submitted last: while the working flag is set, submitting \<open>v\<close> twice in a row
  appends it twice; while it is clear, and no callback submits another snapshot, the second
  submission changes nothing.
\<close>

theorem newState_compares_with_installed:
  "(v = queue_state s \<longrightarrow> newState f v s = Done s) \<and>
   (v \<noteq> queue_state s \<and> isWorking s \<longrightarrow>
      newState f v s = Done (s\<lparr> stateCt := stateCt s + 1, states := states s @ [v] \<rparr>)) \<and>
   (v \<noteq> queue_state s \<and> \<not> isWorking s \<longrightarrow>
      newState f v s =
        (if lastNode s = None
         then Done (s\<lparr> stateCt := stateCt s + 1, queue_state := v, states := [] \<rparr>)
         else if cursorNode s \<noteq> lastNode s
         then Raise UnfinishedUpdate
                (s\<lparr> stateCt := stateCt s + 1, queue_state := v, states := [] \<rparr>)
         else doUpdateWork f
                (s\<lparr> stateCt := stateCt s + 1, queue_state := v, states := [],
                    stateOnUpdate := stateCt s + 1, updates := updates s + 1 \<rparr>))) \<and>
   (newState f v s = Done s \<longleftrightarrow> v = queue_state s) \<and>
   (isWorking s \<and> v \<noteq> queue_state s \<longrightarrow>
      and_then (newState f v s) (newState f v) =
        Done (s\<lparr> stateCt := stateCt s + 2, states := states s @ [v, v] \<rparr>)) \<and>
   (\<not> isWorking s \<and> v \<noteq> queue_state s \<and> submitted s \<subseteq> {v} \<longrightarrow>
      and_then (newState f v s) (newState f v) = newState f v s)"
proof (intro conjI impI)
  show "newState f v s = Done s \<longleftrightarrow> v = queue_state s"
  proof
    assume d: "newState f v s = Done s"
    show "v = queue_state s"
    proof (rule ccontr)
      assume "v \<noteq> queue_state s"
      with d frame_all(3) [of "s\<lparr> stateCt := stateCt s + 1, states := states s @ [v] \<rparr>" f]
      show False by (simp add: res_frame_def frame_def del: startUpdate.simps)
    qed
  qed simp
next
  assume "v = queue_state s"
  then show "newState f v s = Done s" by simp
next
  assume "v \<noteq> queue_state s \<and> isWorking s"
  then show "newState f v s = Done (s\<lparr> stateCt := stateCt s + 1, states := states s @ [v] \<rparr>)"
    by auto
next
  assume "v \<noteq> queue_state s \<and> \<not> isWorking s"
  then show "newState f v s =
        (if lastNode s = None
         then Done (s\<lparr> stateCt := stateCt s + 1, queue_state := v, states := [] \<rparr>)
         else if cursorNode s \<noteq> lastNode s
         then Raise UnfinishedUpdate
                (s\<lparr> stateCt := stateCt s + 1, queue_state := v, states := [] \<rparr>)
         else doUpdateWork f
                (s\<lparr> stateCt := stateCt s + 1, queue_state := v, states := [],
                    stateOnUpdate := stateCt s + 1, updates := updates s + 1 \<rparr>))"
    using newState_not_working [of s v f] by blast
next
  assume "isWorking s \<and> v \<noteq> queue_state s"
  then show "and_then (newState f v s) (newState f v) =
        Done (s\<lparr> stateCt := stateCt s + 2, states := states s @ [v, v] \<rparr>)"
    by (auto simp: and_then_def)
next
  assume a: "\<not> isWorking s \<and> v \<noteq> queue_state s \<and> submitted s \<subseteq> {v}"
  let ?s1 = "s\<lparr> stateCt := stateCt s + 1, states := states s @ [v] \<rparr>"
  have ns: "newState f v s = startUpdate f ?s1" using a by (auto simp del: startUpdate.simps)
  show "and_then (newState f v s) (newState f v) = newState f v s"
  proof (cases "newState f v s")
    case (Done t')
    have eq: "startUpdate f ?s1 = Done t'" by (rule trans [OF ns [symmetric] Done])
    have r: "res_state (startUpdate f ?s1) = Some t'"
      by (simp only: eq res_state_def res.case)
    have B: "insert v (submitted ?s1) \<subseteq> {v}" using a by (auto simp: submitted_def)
    have "allowed t' \<subseteq> {v}"
      using _ _ B r by (rule startUpdate_confined(1)) (use a in simp_all)
    with queue_state_allowed [of t'] have "queue_state t' = v" by auto
    with Done show ?thesis by (simp add: and_then_def del: newState.simps) simp
  qed (simp_all add: and_then_def del: newState.simps)
qed

theorem newState_compares_with_installed_witness:
  "JNull = queue_state idle2 \<and> newState 3 JNull idle2 = Done idle2 \<and>
   (JNum 1 \<noteq> queue_state (idle2\<lparr> isWorking := True \<rparr>) \<and> isWorking (idle2\<lparr> isWorking := True \<rparr>)) \<and>
   newState 3 (JNum 1) (idle2\<lparr> isWorking := True \<rparr>) =
     Done (idle2\<lparr> isWorking := True, stateCt := 1, states := [JNum 1] \<rparr>) \<and>
   and_then (newState 3 (JNum 1) (idle2\<lparr> isWorking := True \<rparr>)) (newState 3 (JNum 1)) =
     Done (idle2\<lparr> isWorking := True, stateCt := 2, states := [JNum 1, JNum 1] \<rparr>) \<and>
   (JNum 1 \<noteq> queue_state idle2 \<and> \<not> isWorking idle2 \<and> submitted idle2 = {}) \<and>
   newState 3 (JNum 1) idle2 =
     doUpdateWork 3 (idle2\<lparr> stateCt := 1, queue_state := JNum 1, states := [],
                           stateOnUpdate := 1, updates := 1 \<rparr>) \<and>
   newState 3 (JNum 1) idle2 \<noteq> Done idle2 \<and>
   and_then (newState 3 (JNum 1) idle2) (newState 3 (JNum 1)) = newState 3 (JNum 1) idle2"
proof -
  let ?w = "idle2\<lparr> isWorking := True \<rparr>"
  have h0: "JNull = queue_state idle2" using idle2_fields by simp
  have h1: "JNum 1 \<noteq> queue_state ?w \<and> isWorking ?w" using idle2_fields by simp
  have sub: "submitted idle2 = {}"
    by (auto simp: submitted_def subm_def idle2_def mount_def create_def appendNodeToQueue_def
          initial_def Let_def split: if_splits)
  have h2: "JNum 1 \<noteq> queue_state idle2 \<and> \<not> isWorking idle2 \<and> submitted idle2 = {}"
    using idle2_fields sub by simp
  note th1 = newState_compares_with_installed [of JNull idle2 3]
  note th2 = newState_compares_with_installed [of "JNum 1" ?w 3]
  note th3 = newState_compares_with_installed [of "JNum 1" idle2 3]
  have c0: "newState 3 JNull idle2 = Done idle2" using th1 h0 by blast
  have c1: "newState 3 (JNum 1) ?w =
      Done (?w\<lparr> stateCt := stateCt ?w + 1, states := states ?w @ [JNum 1] \<rparr>)"
    using th2 h1 by blast
  have c2: "and_then (newState 3 (JNum 1) ?w) (newState 3 (JNum 1)) =
      Done (?w\<lparr> stateCt := stateCt ?w + 2, states := states ?w @ [JNum 1, JNum 1] \<rparr>)"
    using th2 h1 by blast
  have c3: "newState 3 (JNum 1) idle2 =
        (if lastNode idle2 = None
         then Done (idle2\<lparr> stateCt := stateCt idle2 + 1, queue_state := JNum 1, states := [] \<rparr>)
         else if cursorNode idle2 \<noteq> lastNode idle2
         then Raise UnfinishedUpdate
                (idle2\<lparr> stateCt := stateCt idle2 + 1, queue_state := JNum 1, states := [] \<rparr>)
         else doUpdateWork 3
                (idle2\<lparr> stateCt := stateCt idle2 + 1, queue_state := JNum 1, states := [],
                    stateOnUpdate := stateCt idle2 + 1, updates := updates idle2 + 1 \<rparr>))"
    using th3 h2 by blast
  have c4: "newState 3 (JNum 1) idle2 \<noteq> Done idle2" using th3 h2 by blast
  have c5: "and_then (newState 3 (JNum 1) idle2) (newState 3 (JNum 1)) = newState 3 (JNum 1) idle2"
    using th3 h2 by blast
  have e1: "newState 3 (JNum 1) ?w =
     Done (idle2\<lparr> isWorking := True, stateCt := 1, states := [JNum 1] \<rparr>)"
    using c1 idle2_fields by (simp del: newState.simps)
  have e2: "and_then (newState 3 (JNum 1) ?w) (newState 3 (JNum 1)) =
     Done (idle2\<lparr> isWorking := True, stateCt := 2, states := [JNum 1, JNum 1] \<rparr>)"
    using c2 idle2_fields by (simp del: newState.simps)
  have e3: "newState 3 (JNum 1) idle2 =
     doUpdateWork 3 (idle2\<lparr> stateCt := 1, queue_state := JNum 1, states := [],
                           stateOnUpdate := 1, updates := 1 \<rparr>)"
    using c3 idle2_fields by (simp del: newState.simps doUpdateWork.simps)
  from h0 c0 h1 e1 e2 h2 e3 c4 c5 show ?thesis by blast
qed

end
